theory Spec2Isabelle
  imports Main "HOL-Library.Sublist"
begin

section \<open>Python values and exceptions\<close>

text \<open>
  The program is one Python module, \<^verbatim>\<open>main.py\<close>. Uncaught Python exceptions are
  values of \<open>exn\<close>; a computation that may raise returns \<open>exn + 'a\<close>, with \<open>Inl\<close>
  the exception. Strings are \<open>string\<close>, one \<open>char\<close> per code point (code points below
  256).
\<close>

datatype exn =
  AttributeError | TypeError | KeyError | IndexError | AssertionError | HttpError

definition exn_bind :: "exn + 'a \<Rightarrow> ('a \<Rightarrow> exn + 'b) \<Rightarrow> exn + 'b" where
  "exn_bind m f = (case m of Inl e \<Rightarrow> Inl e | Inr x \<Rightarrow> f x)"

text \<open>
  A document payload is the JSON value decoded by the Google API client: dictionaries,
  lists, strings, numbers, booleans and \<^verbatim>\<open>None\<close>. A dictionary is an association list
  with distinct keys, in insertion order.
\<close>

datatype json =
  JNull | JBool bool | JNum int | JStr string | JArr "json list"
  | JObj "(string \<times> json) list"

text \<open>\<^verbatim>\<open>x.get(key, default)\<close>: only a dictionary has the method.\<close>

definition dict_get :: "json \<Rightarrow> string \<Rightarrow> json \<Rightarrow> exn + json" where
  "dict_get x k dflt =
     (case x of
        JObj kvs \<Rightarrow> Inr (case map_of kvs k of None \<Rightarrow> dflt | Some v \<Rightarrow> v)
      | _ \<Rightarrow> Inl AttributeError)"

text \<open>
  \<^verbatim>\<open>for e in x\<close>: a list gives its items, a dictionary its keys, a string its
  characters; anything else is not iterable.
\<close>

definition py_iter :: "json \<Rightarrow> exn + json list" where
  "py_iter x =
     (case x of
        JArr xs \<Rightarrow> Inr xs
      | JObj kvs \<Rightarrow> Inr (map (\<lambda>kv. JStr (fst kv)) kvs)
      | JStr s \<Rightarrow> Inr (map (\<lambda>c. JStr [c]) s)
      | _ \<Rightarrow> Inl TypeError)"

text \<open>
  \<^verbatim>\<open>key in x\<close> for a string key: key membership in a dictionary, substring test in
  a string, item membership in a list.
\<close>

definition py_in :: "string \<Rightarrow> json \<Rightarrow> exn + bool" where
  "py_in k x =
     (case x of
        JObj kvs \<Rightarrow> Inr (map_of kvs k \<noteq> None)
      | JStr s \<Rightarrow> Inr (sublist k s)
      | JArr xs \<Rightarrow> Inr (JStr k \<in> set xs)
      | _ \<Rightarrow> Inl TypeError)"

text \<open>\<^verbatim>\<open>x[key]\<close> for a string key.\<close>

definition py_getitem :: "json \<Rightarrow> string \<Rightarrow> exn + json" where
  "py_getitem x k =
     (case x of
        JObj kvs \<Rightarrow> (case map_of kvs k of None \<Rightarrow> Inl KeyError | Some v \<Rightarrow> Inr v)
      | _ \<Rightarrow> Inl TypeError)"

text \<open>\<^verbatim>\<open>"".join(items)\<close>: every item must be a string.\<close>

fun str_join_empty :: "json list \<Rightarrow> exn + string" where
  "str_join_empty [] = Inr []"
| "str_join_empty (x # xs) =
     (case x of
        JStr s \<Rightarrow> exn_bind (str_join_empty xs) (\<lambda>r. Inr (s @ r))
      | _ \<Rightarrow> Inl TypeError)"

section \<open>Text extraction\<close>

text \<open>
  \<^verbatim>\<open>extract_text\<close> of \<^verbatim>\<open>fetch_doc\<close>; the body of the loop over \<^verbatim>\<open>doc_ids\<close> in
  \<^verbatim>\<open>ingest_docs\<close> repeats the same statements inline.
  \<^verbatim>\<open>
  text_chunks = []
  for element in gdoc.get("body", {}).get("content", []):
      if "paragraph" in element:
          for elem in element["paragraph"].get("elements", []):
              if "textRun" in elem and "content" in elem["textRun"]:
                  text_chunks.append(elem["textRun"]["content"])
  return "".join(text_chunks)
  \<close>
  The two loops carry \<^verbatim>\<open>text_chunks\<close> as an accumulator.
\<close>

fun elems_loop :: "json list \<Rightarrow> json list \<Rightarrow> exn + json list" where
  "elems_loop [] text_chunks = Inr text_chunks"
| "elems_loop (elem # rest) text_chunks =
     exn_bind (py_in ''textRun'' elem) (\<lambda>has_run.
       if has_run then
         exn_bind (py_getitem elem ''textRun'') (\<lambda>run.
         exn_bind (py_in ''content'' run) (\<lambda>has_content.
           if has_content then
             exn_bind (py_getitem run ''content'') (\<lambda>c.
               elems_loop rest (text_chunks @ [c]))
           else elems_loop rest text_chunks))
       else elems_loop rest text_chunks)"

fun content_loop :: "json list \<Rightarrow> json list \<Rightarrow> exn + json list" where
  "content_loop [] text_chunks = Inr text_chunks"
| "content_loop (element # rest) text_chunks =
     exn_bind (py_in ''paragraph'' element) (\<lambda>has_par.
       if has_par then
         exn_bind (py_getitem element ''paragraph'') (\<lambda>par.
         exn_bind (dict_get par ''elements'' (JArr [])) (\<lambda>es.
         exn_bind (py_iter es) (\<lambda>elems.
         exn_bind (elems_loop elems text_chunks) (\<lambda>text_chunks'.
           content_loop rest text_chunks'))))
       else content_loop rest text_chunks)"

definition extract_text :: "json \<Rightarrow> exn + string" where
  "extract_text gdoc =
     exn_bind (dict_get gdoc ''body'' (JObj [])) (\<lambda>body.
     exn_bind (dict_get body ''content'' (JArr [])) (\<lambda>content.
     exn_bind (py_iter content) (\<lambda>elements.
     exn_bind (content_loop elements []) str_join_empty)))"

subsection \<open>The document schema and the text it holds\<close>

text \<open>
  A payload of the Docs API: every field is optional; when present, \<^verbatim>\<open>body\<close>,
  \<^verbatim>\<open>paragraph\<close> and \<^verbatim>\<open>textRun\<close> are dictionaries, \<^verbatim>\<open>content\<close> of the body and
  \<^verbatim>\<open>elements\<close> of a paragraph are lists of dictionaries, and \<^verbatim>\<open>content\<close> of a text
  run is a string. Other fields are unconstrained.
\<close>

definition field_ok :: "string \<Rightarrow> (json \<Rightarrow> bool) \<Rightarrow> json \<Rightarrow> bool" where
  "field_ok k P x =
     (case x of
        JObj kvs \<Rightarrow> (case map_of kvs k of None \<Rightarrow> True | Some v \<Rightarrow> P v)
      | _ \<Rightarrow> False)"

definition is_str :: "json \<Rightarrow> bool" where
  "is_str x = (case x of JStr _ \<Rightarrow> True | _ \<Rightarrow> False)"

definition arr_of :: "(json \<Rightarrow> bool) \<Rightarrow> json \<Rightarrow> bool" where
  "arr_of P x = (case x of JArr xs \<Rightarrow> list_all P xs | _ \<Rightarrow> False)"

definition wf_elem :: "json \<Rightarrow> bool" where
  "wf_elem = field_ok ''textRun'' (field_ok ''content'' is_str)"

definition wf_element :: "json \<Rightarrow> bool" where
  "wf_element = field_ok ''paragraph'' (field_ok ''elements'' (arr_of wf_elem))"

definition wf_doc :: "json \<Rightarrow> bool" where
  "wf_doc = field_ok ''body'' (field_ok ''content'' (arr_of wf_element))"

text \<open>
  The text of a payload, read off the schema: the contents of the text runs that are
  present, in document order; an absent field gives the empty string.
\<close>

definition field :: "json \<Rightarrow> string \<Rightarrow> json option" where
  "field x k = (case x of JObj kvs \<Rightarrow> map_of kvs k | _ \<Rightarrow> None)"

definition run_content :: "json \<Rightarrow> string" where
  "run_content elem =
     (case field elem ''textRun'' of
        None \<Rightarrow> []
      | Some run \<Rightarrow> (case field run ''content'' of Some (JStr s) \<Rightarrow> s | _ \<Rightarrow> []))"

definition paragraph_text :: "json \<Rightarrow> string" where
  "paragraph_text element =
     (case field element ''paragraph'' of
        None \<Rightarrow> []
      | Some par \<Rightarrow>
          (case field par ''elements'' of
             Some (JArr elems) \<Rightarrow> concat (map run_content elems)
           | _ \<Rightarrow> []))"

definition doc_text :: "json \<Rightarrow> string" where
  "doc_text gdoc =
     (case field gdoc ''body'' of
        None \<Rightarrow> []
      | Some body \<Rightarrow>
          (case field body ''content'' of
             Some (JArr elements) \<Rightarrow> concat (map paragraph_text elements)
           | _ \<Rightarrow> []))"

section \<open>The text splitter\<close>

text \<open>
  \<^verbatim>\<open>CharacterTextSplitter\<close> is the langchain class the program instantiates. Its
  code is not part of the program; it is modelled here as the library implements it
  (\<^verbatim>\<open>split_text\<close>, \<^verbatim>\<open>_split_text_with_regex\<close>, \<^verbatim>\<open>_join_docs\<close> and
  \<^verbatim>\<open>_merge_splits\<close> of the text-splitter package), for a separator of one character
  (the program's is the newline) and with the library's other defaults
  (\<^verbatim>\<open>keep_separator=False\<close>, \<^verbatim>\<open>strip_whitespace=True\<close>, \<^verbatim>\<open>length_function=len\<close>).
\<close>

record splitter =
  separator :: char
  chunk_size :: nat
  chunk_overlap :: nat

text \<open>\<^verbatim>\<open>str.isspace\<close> on one character, and \<^verbatim>\<open>str.strip()\<close>.\<close>

definition isspace :: "char \<Rightarrow> bool" where
  "isspace c = (of_char c \<in> {9::nat, 10, 11, 12, 13, 28, 29, 30, 31, 32, 133, 160})"

definition strip :: "string \<Rightarrow> string" where
  "strip s = rev (dropWhile isspace (rev (dropWhile isspace s)))"

text \<open>\<^verbatim>\<open>sep.join(items)\<close>.\<close>

fun str_join :: "string \<Rightarrow> string list \<Rightarrow> string" where
  "str_join sep [] = []"
| "str_join sep [x] = x"
| "str_join sep (x # y # ys) = x @ sep @ str_join sep (y # ys)"

text \<open>\<^verbatim>\<open>re.split(re.escape(sep), text)\<close> for a separator of one character.\<close>

fun split_on :: "char \<Rightarrow> string \<Rightarrow> string list" where
  "split_on sep [] = [Nil]"
| "split_on sep (x # xs) =
     (if x = sep then [] # split_on sep xs
      else (case split_on sep xs of
              [] \<Rightarrow> [[x]]
            | y # ys \<Rightarrow> (x # y) # ys))"

text \<open>
  \<^verbatim>\<open>_split_text_with_regex\<close> without \<^verbatim>\<open>keep_separator\<close>: the pieces between
  separators, the empty ones dropped.
\<close>

definition split_text_with_regex :: "string \<Rightarrow> char \<Rightarrow> string list" where
  "split_text_with_regex text sep = filter (\<lambda>s. s \<noteq> []) (split_on sep text)"

text \<open>
  \<^verbatim>\<open>
  def _join_docs(self, docs, separator):
      text = separator.join(docs)
      if self._strip_whitespace:
          text = text.strip()
      if text == "":
          return None
      else:
          return text
  \<close>
\<close>

definition join_docs :: "string list \<Rightarrow> string \<Rightarrow> string option" where
  "join_docs docs sep =
     (let text = strip (str_join sep docs) in if text = [] then None else Some text)"

text \<open>
  The inner loop of \<^verbatim>\<open>_merge_splits\<close>, which drops pieces from the front of the
  current chunk; \<^verbatim>\<open>current_doc[0]\<close> raises on the empty list.
  \<^verbatim>\<open>
  while total > self._chunk_overlap or (
      total + _len + (separator_len if len(current_doc) > 0 else 0)
      > self._chunk_size
      and total > 0
  ):
      total -= self._length_function(current_doc[0]) + (
          separator_len if len(current_doc) > 1 else 0
      )
      current_doc = current_doc[1:]
  \<close>
\<close>

fun pop_loop :: "splitter \<Rightarrow> int \<Rightarrow> int \<Rightarrow> string list \<Rightarrow> int \<Rightarrow> exn + (string list \<times> int)" where
  "pop_loop sp separator_len len [] tot =
     (if tot > int (chunk_overlap sp) \<or> (tot + len + 0 > int (chunk_size sp) \<and> tot > 0)
      then Inl IndexError
      else Inr ([], tot))"
| "pop_loop sp separator_len len (x # xs) tot =
     (if tot > int (chunk_overlap sp)
         \<or> (tot + len + separator_len > int (chunk_size sp) \<and> tot > 0)
      then pop_loop sp separator_len len xs
             (tot - (int (length x) + (if length (x # xs) > 1 then separator_len else 0)))
      else Inr (x # xs, tot))"

text \<open>
  \<^verbatim>\<open>current_doc.append(d); total += _len + (separator_len if len(current_doc) > 1 else 0)\<close>
\<close>

definition append_split :: "int \<Rightarrow> string \<Rightarrow> string list \<Rightarrow> int \<Rightarrow> string list \<times> int" where
  "append_split separator_len d current_doc tot =
     (current_doc @ [d],
      tot + int (length d) + (if length (current_doc @ [d]) > 1 then separator_len else 0))"

text \<open>
  \<^verbatim>\<open>_merge_splits\<close>: the loop over the pieces, with \<^verbatim>\<open>docs\<close>, \<^verbatim>\<open>current_doc\<close> and
  \<^verbatim>\<open>total\<close> (written \<open>tot\<close>) as its state, and the final join. The warning the
  library logs for an oversized chunk has no effect on the result and is left out.
  \<^verbatim>\<open>
  for d in splits:
      _len = self._length_function(d)
      if (total + _len + (separator_len if len(current_doc) > 0 else 0)
              > self._chunk_size):
          if len(current_doc) > 0:
              doc = self._join_docs(current_doc, separator)
              if doc is not None:
                  docs.append(doc)
              while ...
      current_doc.append(d)
      total += _len + (separator_len if len(current_doc) > 1 else 0)
  doc = self._join_docs(current_doc, separator)
  if doc is not None:
      docs.append(doc)
  return docs
  \<close>
\<close>

definition append_doc :: "string list \<Rightarrow> string option \<Rightarrow> string list" where
  "append_doc docs doc = (case doc of None \<Rightarrow> docs | Some t \<Rightarrow> docs @ [t])"

fun merge_loop ::
  "splitter \<Rightarrow> string list \<Rightarrow> string list \<Rightarrow> string list \<Rightarrow> int \<Rightarrow> exn + string list" where
  "merge_loop sp [] docs current_doc tot =
     Inr (append_doc docs (join_docs current_doc [separator sp]))"
| "merge_loop sp (d # splits) docs current_doc tot =
     (let separator_len = 1; len = int (length d) in
      if tot + len + (if length current_doc > 0 then separator_len else 0)
           > int (chunk_size sp)
      then
        if length current_doc > 0 then
          exn_bind (pop_loop sp separator_len len current_doc tot) (\<lambda>popped.
            case append_split separator_len d (fst popped) (snd popped) of
              (current_doc', tot') \<Rightarrow>
                merge_loop sp splits
                  (append_doc docs (join_docs current_doc [separator sp])) current_doc' tot')
        else
          (case append_split separator_len d current_doc tot of
             (current_doc', tot') \<Rightarrow> merge_loop sp splits docs current_doc' tot')
      else
        (case append_split separator_len d current_doc tot of
           (current_doc', tot') \<Rightarrow> merge_loop sp splits docs current_doc' tot'))"

definition merge_splits :: "splitter \<Rightarrow> string list \<Rightarrow> exn + string list" where
  "merge_splits sp splits = merge_loop sp splits [] [] 0"

text \<open>\<^verbatim>\<open>CharacterTextSplitter.split_text\<close>.\<close>

definition split_text :: "splitter \<Rightarrow> string \<Rightarrow> exn + string list" where
  "split_text sp text = merge_splits sp (split_text_with_regex text (separator sp))"

text \<open>
  \<^verbatim>\<open>CharacterTextSplitter(separator="\n", chunk_size=500, chunk_overlap=50)\<close>, the
  splitter of \<^verbatim>\<open>ingest_docs\<close>.
\<close>

definition the_splitter :: splitter where
  "the_splitter = \<lparr>separator = CHR 0x0A, chunk_size = 500, chunk_overlap = 50\<rparr>"

text \<open>
  Two predicates on chunks, used to state what \<^verbatim>\<open>_merge_splits\<close> emits: a chunk
  comes from a run of consecutive pieces, joined and stripped, and a run of two or
  more pieces fits the chunk size; a piece that is not all whitespace is covered when
  its stripped text lies inside some chunk.
\<close>

definition from_run :: "splitter \<Rightarrow> string list \<Rightarrow> string \<Rightarrow> bool" where
  "from_run sp units c \<longleftrightarrow>
     c \<noteq> [] \<and>
     (\<exists>run. sublist run units \<and> c = strip (str_join [separator sp] run)
        \<and> (2 \<le> length run \<longrightarrow> length (str_join [separator sp] run) \<le> chunk_size sp))"

definition covers :: "string list \<Rightarrow> string \<Rightarrow> bool" where
  "covers docs u \<longleftrightarrow> (strip u \<noteq> [] \<longrightarrow> (\<exists>c\<in>set docs. sublist (strip u) c))"

text \<open>
  The runs behind the chunks. A run is a pair: the pieces it repeats from the end of
  the run before it (its overlap), and the pieces it adds. The chunks of a list of
  runs are the joins \<^verbatim>\<open>_join_docs\<close> makes of them, a run that is all whitespace
  giving none; the overlaps are in order when each one is a suffix of the run before
  it, the first run following \<open>prev\<close>.
\<close>

definition chunks_of :: "char \<Rightarrow> (string list \<times> string list) list \<Rightarrow> string list" where
  "chunks_of sep runs = List.map_filter (\<lambda>r. join_docs (fst r @ snd r) [sep]) runs"

fun overlaps_from :: "'a list \<Rightarrow> ('a list \<times> 'a list) list \<Rightarrow> bool" where
  "overlaps_from prev [] = True"
| "overlaps_from prev (r # runs) =
     (suffix (fst r) prev \<and> overlaps_from (fst r @ snd r) runs)"

section \<open>The vector index\<close>

text \<open>
  \<^verbatim>\<open>faiss.IndexFlatL2\<close> keeps the added vectors in insertion order (the list \<open>xb\<close>)
  and searches them exhaustively. Its code is not part of the program; it is modelled
  as the library documents it. A vector is a value of the type variable \<open>'v\<close> (a row
  of the embedding matrix). The squared Euclidean distance the index computes between
  the query and a stored vector is a float: \<open>dist q x = Some d\<close> when it is a value
  \<open>d\<close> below the largest float, in a linear order \<open>'d\<close>, and \<open>dist q x = None\<close> when
  it is not (the sum overflowed to infinity, or is NaN).
\<close>

definition index_add :: "'v list \<Rightarrow> 'v list \<Rightarrow> 'v list" where
  "index_add xb vectors = xb @ vectors"

text \<open>
  The search keeps its results in a heap that starts at the largest float and admits
  a vector only when its distance is strictly smaller, so a vector whose distance is
  not below the largest float is never a result. The candidates are the vectors that
  can be results: their positions, counted from \<open>i\<close>, each with its distance.
\<close>

fun candidates :: "('v \<Rightarrow> 'v \<Rightarrow> 'd option) \<Rightarrow> 'v \<Rightarrow> nat \<Rightarrow> 'v list \<Rightarrow> (nat \<times> 'd) list" where
  "candidates dist q i [] = []"
| "candidates dist q i (x # xs) =
     (case dist q x of
        None \<Rightarrow> candidates dist q (Suc i) xs
      | Some d \<Rightarrow> (i, d) # candidates dist q (Suc i) xs)"

text \<open>
  The nearest candidates: positions with their distances, ascending, at most \<open>k\<close>.
  Among equal distances the lower position comes first here; the library fixes no
  order for them.
\<close>

definition knn ::
  "('v \<Rightarrow> 'v \<Rightarrow> 'd::linorder option) \<Rightarrow> 'v list \<Rightarrow> 'v \<Rightarrow> nat \<Rightarrow> (nat \<times> 'd) list" where
  "knn dist xb q k = take k (sort_key snd (candidates dist q 0 xb))"

text \<open>
  \<^verbatim>\<open>D, I = index.search(query_vec, k)\<close> for one query row: the wrapper asserts
  \<^verbatim>\<open>k > 0\<close>, and both result rows have exactly \<open>k\<close> entries; where there are fewer
  than \<open>k\<close> results the missing labels are \<open>-1\<close> and the missing distances the largest
  float (\<open>None\<close> here).
\<close>

definition index_search ::
  "('v \<Rightarrow> 'v \<Rightarrow> 'd::linorder option) \<Rightarrow> 'v list \<Rightarrow> 'v \<Rightarrow> int
     \<Rightarrow> exn + ('d option list \<times> int list)" where
  "index_search dist xb q k =
     (if k \<le> 0 then Inl AssertionError
      else
        (let hits = knn dist xb q (nat k); pad = nat k - length hits
         in Inr (map (\<lambda>h. Some (snd h)) hits @ replicate pad None,
                 map (\<lambda>h. int (fst h)) hits @ replicate pad (- 1))))"

text \<open>
  The squared Euclidean distance on integer vectors, to run the index on concrete
  inputs: \<open>l2sq\<close> is the exact sum of squares, and \<open>l2sq_f32\<close> gives it as long as
  it is below the largest float, \<open>(2^24 - 1) * 2^104\<close>.
\<close>

definition l2sq :: "int list \<Rightarrow> int list \<Rightarrow> int" where
  "l2sq q x = sum_list (map (\<lambda>p. (fst p - snd p) * (fst p - snd p)) (zip q x))"

definition l2sq_f32 :: "int list \<Rightarrow> int list \<Rightarrow> int option" where
  "l2sq_f32 q x =
     (if l2sq q x < 340282346638528859811704183484516925440 then Some (l2sq q x) else None)"

section \<open>The application state and its handlers\<close>

text \<open>\<^verbatim>\<open>xs[i]\<close> on a Python list: a negative index counts from the end.\<close>

definition py_index :: "'a list \<Rightarrow> int \<Rightarrow> exn + 'a" where
  "py_index xs i =
     (let n = int (length xs) in
      if 0 \<le> i \<and> i < n then Inr (xs ! nat i)
      else if - n \<le> i \<and> i < 0 then Inr (xs ! nat (n + i))
      else Inl IndexError)"

record cred_info =
  token :: string
  refresh_token :: "string option"
  token_uri :: string
  client_id :: string
  client_secret :: string
  scopes :: "string list"

text \<open>\<^verbatim>\<open>{"index": faiss_index, "texts": [chunks]}\<close>\<close>

record 'v store =
  index :: "'v list"
  texts :: "string list"

text \<open>The two module-level dictionaries.\<close>

record 'v state =
  USER_CREDENTIALS :: "string \<rightharpoonup> cred_info"
  VECTOR_STORE :: "string \<rightharpoonup> 'v store"

definition init_state :: "'v state" where
  "init_state = \<lparr>USER_CREDENTIALS = Map.empty, VECTOR_STORE = Map.empty\<rparr>"

text \<open>
  What a handler returns: an error body with its status code, or the handler's own
  success value (the ingestion message with its chunk count; the chat reply with the
  query and the response text).
\<close>

datatype response =
  JSONResponse string nat
  | Connected
  | Ingested nat
  | ChatResponse string string

text \<open>
  \<^verbatim>\<open>oauth2callback\<close>: the token exchange is outside the program; its outcome is the
  argument, an error text or the credentials.
\<close>

definition oauth2callback :: "string + cred_info \<Rightarrow> 'v state \<Rightarrow> 'v state \<times> (exn + response)" where
  "oauth2callback outcome s =
     (case outcome of
        Inl msg \<Rightarrow> (s, Inr (JSONResponse msg 500))
      | Inr creds \<Rightarrow>
          (s\<lparr>USER_CREDENTIALS := (USER_CREDENTIALS s)(''default_user'' \<mapsto> creds)\<rparr>,
           Inr Connected))"

definition get_credentials_for_user :: "'v state \<Rightarrow> string \<Rightarrow> cred_info option" where
  "get_credentials_for_user s user_key = USER_CREDENTIALS s user_key"

subsection \<open>Ingestion\<close>

text \<open>
  \<^verbatim>\<open>
  for doc_id in doc_ids:
      doc = docs_svc.documents().get(documentId=doc_id).execute()
      ...                       # the statements of extract_text
      all_chunks.append(plain_text)
  \<close>
  The document source is the parameter \<open>get\<close>; a failed fetch raises.
\<close>

fun fetch_loop :: "(string \<Rightarrow> exn + json) \<Rightarrow> string list \<Rightarrow> string list \<Rightarrow> exn + string list" where
  "fetch_loop get [] all_chunks = Inr all_chunks"
| "fetch_loop get (doc_id # rest) all_chunks =
     exn_bind (get doc_id) (\<lambda>doc.
     exn_bind (extract_text doc) (\<lambda>plain_text.
       fetch_loop get rest (all_chunks @ [plain_text])))"

text \<open>
  \<^verbatim>\<open>
  for txt in all_chunks:
      chunks.extend(splitter.split_text(txt))
  \<close>
\<close>

fun split_loop :: "string list \<Rightarrow> string list \<Rightarrow> exn + string list" where
  "split_loop [] chunks = Inr chunks"
| "split_loop (txt # rest) chunks =
     exn_bind (split_text the_splitter txt) (\<lambda>cs. split_loop rest (chunks @ cs))"

text \<open>
  \<^verbatim>\<open>model.encode(chunks, convert_to_numpy=True)\<close>: one row per text, in order; the
  embedding of one text is the parameter \<open>emb\<close>. For no text at all the result has
  no second axis, and \<^verbatim>\<open>embeddings.shape[1]\<close> raises.
\<close>

definition encode :: "(string \<Rightarrow> 'v) \<Rightarrow> string list \<Rightarrow> exn + 'v list" where
  "encode emb chunks = (if chunks = [] then Inl IndexError else Inr (map emb chunks))"

definition ingest_docs ::
  "(cred_info \<Rightarrow> string \<Rightarrow> exn + json) \<Rightarrow> (string \<Rightarrow> 'v) \<Rightarrow> 'v state \<Rightarrow> string list
     \<Rightarrow> 'v state \<times> (exn + response)" where
  "ingest_docs fetch emb s doc_ids =
     (let user_key = ''default_user'' in
      case get_credentials_for_user s user_key of
        None \<Rightarrow> (s, Inr (JSONResponse ''not authenticated. visit /login'' 401))
      | Some creds \<Rightarrow>
          (case exn_bind (fetch_loop (fetch creds) doc_ids []) (\<lambda>all_chunks.
                exn_bind (split_loop all_chunks []) (\<lambda>chunks.
                exn_bind (encode emb chunks) (\<lambda>embeddings.
                  Inr (index_add [] embeddings, chunks)))) of
             Inl e \<Rightarrow> (s, Inl e)
           | Inr built \<Rightarrow>
               (s\<lparr>VECTOR_STORE := (VECTOR_STORE s)
                     (user_key \<mapsto> \<lparr>index = fst built, texts = snd built\<rparr>)\<rparr>,
                Inr (Ingested (length (snd built))))))"

subsection \<open>Chat queries\<close>

text \<open>\<^verbatim>\<open>results = [texts[i] for i in I[0]]\<close>\<close>

fun texts_at :: "string list \<Rightarrow> int list \<Rightarrow> exn + string list" where
  "texts_at txts [] = Inr []"
| "texts_at txts (i # rest) =
     exn_bind (py_index txts i) (\<lambda>t.
     exn_bind (texts_at txts rest) (\<lambda>r. Inr (t # r)))"

definition chat_query ::
  "(string \<Rightarrow> 'v) \<Rightarrow> ('v \<Rightarrow> 'v \<Rightarrow> 'd::linorder option) \<Rightarrow> 'v state \<Rightarrow> string
     \<Rightarrow> 'v state \<times> (exn + response)" where
  "chat_query emb dist s query =
     (let user_key = ''default_user'' in
      case VECTOR_STORE s user_key of
        None \<Rightarrow>
          (s, Inr (JSONResponse ''No documents ingested yet. Use /ingest first.'' 400))
      | Some store \<Rightarrow>
          (s, exn_bind (index_search dist (index store) (emb query) 3) (\<lambda>DI.
              exn_bind (texts_at (texts store) (snd DI)) (\<lambda>results.
                Inr (ChatResponse query (str_join ''\<newline>---\<newline>'' results))))))"

subsection \<open>Runs of the application\<close>

datatype op = Login "string + cred_info" | Ingest "string list" | Query string

fun step ::
  "(cred_info \<Rightarrow> string \<Rightarrow> exn + json) \<Rightarrow> (string \<Rightarrow> 'v)
     \<Rightarrow> ('v \<Rightarrow> 'v \<Rightarrow> 'd::linorder option)
     \<Rightarrow> op \<Rightarrow> 'v state \<Rightarrow> 'v state \<times> (exn + response)" where
  "step fetch emb dist (Login outcome) s = oauth2callback outcome s"
| "step fetch emb dist (Ingest doc_ids) s = ingest_docs fetch emb s doc_ids"
| "step fetch emb dist (Query query) s = chat_query emb dist s query"

fun run_ops ::
  "(cred_info \<Rightarrow> string \<Rightarrow> exn + json) \<Rightarrow> (string \<Rightarrow> 'v)
     \<Rightarrow> ('v \<Rightarrow> 'v \<Rightarrow> 'd::linorder option)
     \<Rightarrow> 'v state \<Rightarrow> op list \<Rightarrow> 'v state \<times> (exn + response) list" where
  "run_ops fetch emb dist s [] = (s, [])"
| "run_ops fetch emb dist s (x # xs) =
     (case step fetch emb dist x s of
        (s', r) \<Rightarrow> (case run_ops fetch emb dist s' xs of (s'', rs) \<Rightarrow> (s'', r # rs)))"

definition is_ingested :: "exn + response \<Rightarrow> bool" where
  "is_ingested r = (case r of Inr (Ingested n) \<Rightarrow> True | _ \<Rightarrow> False)"

text \<open>
  The invariant of a vector store: as many vectors as chunk texts, and the vector at
  each position is the embedding of the text at that position.
\<close>

definition store_inv :: "(string \<Rightarrow> 'v) \<Rightarrow> 'v store \<Rightarrow> bool" where
  "store_inv emb st \<longleftrightarrow>
     length (texts st) = length (index st) \<and>
     (\<forall>i < length (texts st). index st ! i = emb (texts st ! i))"

definition stores_ok :: "(string \<Rightarrow> 'v) \<Rightarrow> 'v state \<Rightarrow> bool" where
  "stores_ok emb s \<longleftrightarrow> (\<forall>k st. VECTOR_STORE s k = Some st \<longrightarrow> store_inv emb st)"

text \<open>Inputs on which the definitions are run.\<close>

definition creds0 :: cred_info where
  "creds0 = \<lparr>token = ''t'', refresh_token = None, token_uri = ''u'', client_id = ''i'',
     client_secret = ''s'', scopes = []\<rparr>"

definition text_doc :: "string \<Rightarrow> json" where
  "text_doc t =
     JObj [(''documentId'', JStr ''doc''),
           (''body'', JObj [(''content'', JArr [
              JObj [(''sectionBreak'', JObj [])],
              JObj [(''paragraph'', JObj [(''elements'', JArr [
                 JObj [(''textRun'', JObj [(''content'', JStr t)])]])])]])])]"

definition cat_text :: string where
  "cat_text = ''The cat sat.\<newline>\<newline>The dog ran.''"

definition cat_chunk :: string where
  "cat_chunk = ''The cat sat.\<newline>The dog ran.''"

definition mixed_doc :: json where
  "mixed_doc =
     JObj [(''documentId'', JStr ''d1''),
           (''body'', JObj [(''content'', JArr [
              JObj [(''sectionBreak'', JObj [])],
              JObj [(''paragraph'', JObj [(''elements'', JArr [
                 JObj [(''textRun'', JObj [(''content'', JStr ''ab'')])],
                 JObj [(''pageBreak'', JObj [])],
                 JObj [(''textRun'', JObj [(''textStyle'', JObj [])])],
                 JObj [(''textRun'', JObj [(''content'', JStr ''c'')])]])])],
              JObj [(''paragraph'', JObj [])]])])]"

definition emb_len :: "string \<Rightarrow> int list" where
  "emb_len t = [int (length t)]"

definition fetch_by_name :: "cred_info \<Rightarrow> string \<Rightarrow> exn + json" where
  "fetch_by_name creds doc_id =
     (if doc_id = ''missing'' then Inl HttpError else Inr (text_doc doc_id))"

definition old_state :: "int list state" where
  "old_state =
     \<lparr>USER_CREDENTIALS = [''default_user'' \<mapsto> creds0],
      VECTOR_STORE = [''default_user'' \<mapsto> \<lparr>index = [emb_len ''old''], texts = [''old'']\<rparr>]\<rparr>"

definition new_state :: "int list state" where
  "new_state =
     \<lparr>USER_CREDENTIALS = [''default_user'' \<mapsto> creds0],
      VECTOR_STORE = [''default_user'' \<mapsto> \<lparr>index = [emb_len ''good''], texts = [''good'']\<rparr>]\<rparr>"

section \<open>Text extraction is total on the document schema\<close>

lemma exn_bind_Inr [simp]: "exn_bind (Inr x) f = f x"
  by (simp add: exn_bind_def)

lemma exn_bind_Inl [simp]: "exn_bind (Inl e) f = Inl e"
  by (simp add: exn_bind_def)

lemma str_join_empty_append:
  "str_join_empty (xs @ ys) =
     exn_bind (str_join_empty xs) (\<lambda>a. exn_bind (str_join_empty ys) (\<lambda>b. Inr (a @ b)))"
  by (induction xs) (auto simp: exn_bind_def split: json.splits sum.splits)

lemma wf_elem_cases:
  assumes "wf_elem elem"
  shows "((\<forall>rest acc. elems_loop (elem # rest) acc = elems_loop rest acc)
            \<and> run_content elem = [])
       \<or> (\<exists>s. (\<forall>rest acc. elems_loop (elem # rest) acc = elems_loop rest (acc @ [JStr s]))
            \<and> run_content elem = s)"
  using assms
  by (auto simp: wf_elem_def field_ok_def py_in_def py_getitem_def run_content_def
      field_def is_str_def split: json.splits option.splits)

lemma elems_loop_wf:
  "list_all wf_elem elems \<Longrightarrow>
   \<exists>out. elems_loop elems acc = Inr (acc @ out)
        \<and> str_join_empty out = Inr (concat (map run_content elems))"
proof (induction elems arbitrary: acc)
  case Nil
  then show ?case by simp
next
  case (Cons elem rest)
  from Cons.prems have w: "wf_elem elem" and r: "list_all wf_elem rest" by simp_all
  from wf_elem_cases[OF w] show ?case
  proof
    assume a: "(\<forall>rest acc. elems_loop (elem # rest) acc = elems_loop rest acc)
            \<and> run_content elem = []"
    from Cons.IH[OF r, of acc] a show ?thesis by (simp del: elems_loop.simps)
  next
    assume "\<exists>s. (\<forall>rest acc. elems_loop (elem # rest) acc = elems_loop rest (acc @ [JStr s]))
            \<and> run_content elem = s"
    then obtain s where a: "\<forall>rest acc. elems_loop (elem # rest) acc = elems_loop rest (acc @ [JStr s])"
      and b: "run_content elem = s" by blast
    from Cons.IH[OF r, of "acc @ [JStr s]"] obtain out where
      out: "elems_loop rest (acc @ [JStr s]) = Inr ((acc @ [JStr s]) @ out)"
         "str_join_empty out = Inr (concat (map run_content rest))" by blast
    show ?thesis
      by (rule exI[of _ "JStr s # out"]) (simp add: a b out del: elems_loop.simps)
  qed
qed

lemma wf_element_cases:
  assumes "wf_element element"
  shows "((\<forall>rest acc. content_loop (element # rest) acc = content_loop rest acc)
            \<and> paragraph_text element = [])
       \<or> (\<exists>elems. list_all wf_elem elems
            \<and> (\<forall>rest acc. content_loop (element # rest) acc =
                  exn_bind (elems_loop elems acc) (content_loop rest))
            \<and> paragraph_text element = concat (map run_content elems))"
  using assms
  by (auto simp: wf_element_def field_ok_def py_in_def py_getitem_def paragraph_text_def
      dict_get_def py_iter_def arr_of_def
      field_def split: json.splits option.splits)

lemma content_loop_wf:
  "list_all wf_element elements \<Longrightarrow>
   \<exists>out. content_loop elements acc = Inr (acc @ out)
        \<and> str_join_empty out = Inr (concat (map paragraph_text elements))"
proof (induction elements arbitrary: acc)
  case Nil
  then show ?case by simp
next
  case (Cons element rest)
  from Cons.prems have w: "wf_element element" and r: "list_all wf_element rest" by simp_all
  from wf_element_cases[OF w] show ?case
  proof
    assume a: "(\<forall>rest acc. content_loop (element # rest) acc = content_loop rest acc)
            \<and> paragraph_text element = []"
    from Cons.IH[OF r, of acc] a show ?thesis by (simp del: content_loop.simps)
  next
    assume "\<exists>elems. list_all wf_elem elems
            \<and> (\<forall>rest acc. content_loop (element # rest) acc =
                  exn_bind (elems_loop elems acc) (content_loop rest))
            \<and> paragraph_text element = concat (map run_content elems)"
    then obtain elems where e: "list_all wf_elem elems"
      and a: "\<forall>rest acc. content_loop (element # rest) acc =
                  exn_bind (elems_loop elems acc) (content_loop rest)"
      and b: "paragraph_text element = concat (map run_content elems)" by blast
    from elems_loop_wf[OF e, of acc] obtain o1 where
      o1: "elems_loop elems acc = Inr (acc @ o1)"
          "str_join_empty o1 = Inr (concat (map run_content elems))" by blast
    from Cons.IH[OF r, of "acc @ o1"] obtain out where
      out: "content_loop rest (acc @ o1) = Inr ((acc @ o1) @ out)"
         "str_join_empty out = Inr (concat (map paragraph_text rest))" by blast
    show ?thesis
      by (rule exI[of _ "o1 @ out"])
         (simp add: a b o1 out str_join_empty_append del: content_loop.simps)
  qed
qed

text \<open>
  Claim C10. Text extraction is total over the optional structure of a fetched
  document payload: on every payload of the document schema, \<open>extract_text\<close> raises
  nothing and returns \<open>doc_text\<close>, the concatenation in document order of the content
  of every text run that is present; a missing body, a missing content list, an
  element without a paragraph, a paragraph without elements, an element without a text
  run and a text run without content each contribute the empty string.
\<close>

theorem extract_text_total:
  assumes "wf_doc gdoc"
  shows "extract_text gdoc = Inr (doc_text gdoc)"
proof -
  from assms obtain kvs where g: "gdoc = JObj kvs"
    by (auto simp: wf_doc_def field_ok_def split: json.splits)
  show ?thesis
  proof (cases "map_of kvs ''body''")
    case None
    then show ?thesis
      by (simp add: g extract_text_def doc_text_def field_def dict_get_def py_iter_def)
  next
    case (Some body)
    with assms g obtain kvs2 where b: "body = JObj kvs2"
      and wb: "field_ok ''content'' (arr_of wf_element) body"
      by (auto simp: wf_doc_def field_ok_def split: json.splits)
    show ?thesis
    proof (cases "map_of kvs2 ''content''")
      case None
      then show ?thesis
        by (simp add: g b Some extract_text_def doc_text_def field_def dict_get_def py_iter_def)
    next
      case (Some content)
      with wb b obtain elements where c: "content = JArr elements"
        and we: "list_all wf_element elements"
        by (auto simp: field_ok_def arr_of_def split: json.splits)
      from content_loop_wf[OF we, of "[]"] obtain out where
        out: "content_loop elements [] = Inr out"
             "str_join_empty out = Inr (concat (map paragraph_text elements))" by auto
      show ?thesis
        by (simp add: g b c Some \<open>map_of kvs ''body'' = Some body\<close> extract_text_def doc_text_def
            field_def dict_get_def py_iter_def out)
    qed
  qed
qed

theorem extract_text_total_witness:
  "wf_doc mixed_doc \<and> extract_text mixed_doc = Inr ''abc''"
  using extract_text_total [of mixed_doc]
  by (simp add: mixed_doc_def wf_doc_def wf_element_def wf_elem_def field_ok_def arr_of_def
      is_str_def doc_text_def paragraph_text_def run_content_def field_def)

text \<open>
  The schema is what makes the extraction total: on a dictionary whose \<^verbatim>\<open>body\<close> is
  \<^verbatim>\<open>None\<close>, which the Docs API does not produce, \<^verbatim>\<open>.get("content", [])\<close> raises.
\<close>

lemma extract_text_null_body: "extract_text (JObj [(''body'', JNull)]) = Inl AttributeError"
  by (simp add: extract_text_def dict_get_def)

section \<open>What the splitter emits\<close>

lemma str_join_Cons:
  "xs \<noteq> [] \<Longrightarrow> str_join sep (x # xs) = x @ sep @ str_join sep xs"
  by (cases xs) simp_all

lemma str_join_snoc:
  "cur \<noteq> [] \<Longrightarrow> str_join sep (cur @ [d]) = str_join sep cur @ sep @ d"
  by (induction sep cur rule: str_join.induct) simp_all

lemma str_join_mem:
  "u \<in> set run \<Longrightarrow> \<exists>pre post. str_join sep run = pre @ u @ post"
proof (induction sep run rule: str_join.induct)
  case (1 sep)
  then show ?case by simp
next
  case (2 sep x)
  then have "str_join sep [x] = [] @ u @ []" by simp
  then show ?case by blast
next
  case (3 sep x y ys)
  show ?case
  proof (cases "u = x")
    case True
    then have "str_join sep (x # y # ys) = [] @ u @ (sep @ str_join sep (y # ys))" by simp
    then show ?thesis by blast
  next
    case False
    with 3 obtain pre post where "str_join sep (y # ys) = pre @ u @ post" by auto
    then have "str_join sep (x # y # ys) = (x @ sep @ pre) @ u @ post" by simp
    then show ?thesis by blast
  qed
qed

lemma length_strip_le: "length (strip s) \<le> length s"
proof -
  have "length (strip s) \<le> length (rev (dropWhile isspace s))"
    using length_dropWhile_le[of isspace "rev (dropWhile isspace s)"]
    by (simp add: strip_def)
  also have "\<dots> \<le> length s" by (simp add: length_dropWhile_le)
  finally show ?thesis .
qed

lemma strip_core:
  assumes "strip u \<noteq> []"
  shows "\<exists>a b. u = a @ strip u @ b" and "\<not> isspace (hd (strip u))"
    and "\<not> isspace (last (strip u))"
proof -
  let ?v = "dropWhile isspace u"
  let ?w = "dropWhile isspace (rev ?v)"
  have s: "strip u = rev ?w" by (simp add: strip_def)
  from assms s have w: "?w \<noteq> []" by simp
  have "rev (takeWhile isspace (rev ?v) @ ?w) = ?v"
    by (simp only: takeWhile_dropWhile_id rev_rev_ident)
  then have "rev ?w @ rev (takeWhile isspace (rev ?v)) = ?v"
    by (simp only: rev_append)
  then have v: "?v = strip u @ rev (takeWhile isspace (rev ?v))"
    by (simp only: s)
  have "u = takeWhile isspace u @ ?v" by simp
  with v have "u = takeWhile isspace u @ strip u @ rev (takeWhile isspace (rev ?v))"
    by simp
  then show "\<exists>a b. u = a @ strip u @ b" by blast
  from w have "\<not> isspace (hd ?w)" by (rule hd_dropWhile)
  with w show "\<not> isspace (last (strip u))" by (simp add: s last_rev)
  have vne: "?v \<noteq> []"
  proof
    assume "?v = []"
    with v have "strip u @ rev (takeWhile isspace (rev ?v)) = []" by (simp only:)
    with assms show False by simp
  qed
  then have "\<not> isspace (hd ?v)" by (rule hd_dropWhile)
  moreover from v assms have "hd ?v = hd (strip u)"
    by (metis hd_append2)
  ultimately show "\<not> isspace (hd (strip u))" by simp
qed

lemma dropWhile_keeps:
  assumes "core \<noteq> []" "\<not> P (hd core)"
  shows "\<exists>p. dropWhile P (a @ core @ b) = p @ core @ b"
proof (cases "\<forall>x\<in>set a. P x")
  case True
  from assms obtain x xs where c: "core = x # xs" and "\<not> P x" by (cases core) auto
  with True have "dropWhile P (a @ core @ b) = [] @ core @ b"
    by (simp add: dropWhile_append)
  then show ?thesis by blast
next
  case False
  then have "dropWhile P (a @ core @ b) = dropWhile P a @ core @ b"
    by (auto simp: dropWhile_append)
  then show ?thesis by blast
qed

lemma strip_keeps:
  assumes "core \<noteq> []" "\<not> isspace (hd core)" "\<not> isspace (last core)"
  shows "\<exists>p s. strip (a @ core @ b) = p @ core @ s"
proof -
  from dropWhile_keeps[of core isspace a b] assms obtain p where
    p: "dropWhile isspace (a @ core @ b) = p @ core @ b" by blast
  have r: "rev core \<noteq> []" "\<not> isspace (hd (rev core))"
    using assms by (simp_all add: hd_rev)
  from dropWhile_keeps[of "rev core" isspace "rev b" "rev p"] r obtain q where
    q: "dropWhile isspace (rev b @ rev core @ rev p) = q @ rev core @ rev p" by blast
  have "strip (a @ core @ b) = p @ core @ rev q"
    by (simp add: strip_def p q)
  then show ?thesis by blast
qed

lemma strip_unit_in_join:
  assumes "u \<in> set run" "strip u \<noteq> []"
  shows "sublist (strip u) (strip (str_join sep run))"
proof -
  from str_join_mem[OF assms(1)] obtain pre post where
    j: "str_join sep run = pre @ u @ post" by blast
  from strip_core(1)[OF assms(2)] obtain a b where u: "u = a @ strip u @ b" by blast
  have "str_join sep run = (pre @ a) @ strip u @ (b @ post)"
    by (subst j, subst u) simp
  moreover from strip_keeps[OF assms(2) strip_core(2,3)[OF assms(2)], of "pre @ a" "b @ post"]
  obtain p s where "strip ((pre @ a) @ strip u @ (b @ post)) = p @ strip u @ s" by blast
  ultimately have "strip (str_join sep run) = p @ strip u @ s" by simp
  then show ?thesis by (simp add: sublist_def) blast
qed

lemma pop_loop_inv:
  assumes "\<forall>u\<in>set cur. u \<noteq> []" "tot = int (length (str_join [c] cur))"
  shows "\<exists>cur'. pop_loop sp 1 len cur tot = Inr (cur', int (length (str_join [c] cur')))
     \<and> suffix cur' cur
     \<and> (cur' = [] \<or> int (length (str_join [c] cur')) + len + 1 \<le> int (chunk_size sp))"
  using assms
proof (induction cur arbitrary: tot)
  case Nil
  then show ?case by simp
next
  case (Cons x xs)
  let ?cond = "tot > int (chunk_overlap sp)
         \<or> (tot + len + 1 > int (chunk_size sp) \<and> tot > 0)"
  show ?case
  proof (cases ?cond)
    case True
    have t: "tot - (int (length x) + (if length (x # xs) > 1 then 1 else 0))
          = int (length (str_join [c] xs))"
      using Cons.prems(2) by (cases xs) (simp_all add: str_join_Cons)
    from Cons.prems(1) have "\<forall>u\<in>set xs. u \<noteq> []" by simp
    from Cons.IH[OF this refl] obtain cur' where
      c: "pop_loop sp 1 len xs (int (length (str_join [c] xs))) =
            Inr (cur', int (length (str_join [c] cur')))"
         "suffix cur' xs"
         "cur' = [] \<or> int (length (str_join [c] cur')) + len + 1 \<le> int (chunk_size sp)"
      by blast
    have "pop_loop sp 1 len (x # xs) tot = Inr (cur', int (length (str_join [c] cur')))"
      using True t c(1) by (simp del: str_join.simps)
    moreover have "suffix cur' (x # xs)" using c(2) by (rule suffix_ConsI)
    ultimately show ?thesis using c(3) by blast
  next
    case False
    from Cons.prems have "tot > 0" by (cases xs) (auto simp: str_join_Cons)
    with False have "tot + len + 1 \<le> int (chunk_size sp)" by auto
    with False Cons.prems(2) show ?thesis
      by (intro exI[of _ "x # xs"]) (simp del: str_join.simps)
  qed
qed

lemma from_run_mono:
  "from_run sp units c \<Longrightarrow> sublist units units' \<Longrightarrow> from_run sp units' c"
  unfolding from_run_def using sublist_order.order_trans by blast

lemma covers_mono: "covers a u \<Longrightarrow> covers (a @ b) u" "covers b u \<Longrightarrow> covers (a @ b) u"
  by (auto simp: covers_def)

lemma emit_current:
  assumes "2 \<le> length cur \<longrightarrow> length (str_join [separator sp] cur) \<le> chunk_size sp"
  shows "\<exists>e. append_doc docs (join_docs cur [separator sp]) = docs @ e
      \<and> (\<forall>c\<in>set e. from_run sp cur c) \<and> (\<forall>u\<in>set cur. covers e u)"
proof (cases "strip (str_join [separator sp] cur) = []")
  case True
  then have "append_doc docs (join_docs cur [separator sp]) = docs @ []"
    by (simp add: append_doc_def join_docs_def)
  moreover have "\<forall>u\<in>set cur. covers [] u"
  proof
    fix u assume "u \<in> set cur"
    show "covers [] u"
    proof (cases "strip u = []")
      case False
      with strip_unit_in_join[OF \<open>u \<in> set cur\<close>, of "[separator sp]"] True
      show ?thesis by simp
    qed (simp add: covers_def)
  qed
  ultimately show ?thesis by (intro exI[of _ "[]"]) simp
next
  case False
  let ?t = "strip (str_join [separator sp] cur)"
  from False have "append_doc docs (join_docs cur [separator sp]) = docs @ [?t]"
    by (simp add: append_doc_def join_docs_def)
  moreover from False assms have "from_run sp cur ?t"
    unfolding from_run_def by (intro conjI exI[of _ cur]) simp_all
  moreover have "\<forall>u\<in>set cur. covers [?t] u"
    by (auto simp: covers_def intro: strip_unit_in_join)
  ultimately show ?thesis by (intro exI[of _ "[?t]"]) simp
qed

lemma append_split_inv:
  assumes "tot = int (length (str_join [c] cur))"
  shows "append_split 1 d cur tot = (cur @ [d], int (length (str_join [c] (cur @ [d]))))"
  using assms by (cases "cur = []") (simp_all add: append_split_def str_join_snoc)

lemma merge_loop_emits:
  assumes "\<forall>u\<in>set cur \<union> set splits. u \<noteq> []"
    and "tot = int (length (str_join [separator sp] cur))"
    and "2 \<le> length cur \<longrightarrow> tot \<le> int (chunk_size sp)"
  shows "\<exists>new. merge_loop sp splits docs cur tot = Inr (docs @ new)
     \<and> (\<forall>c\<in>set new. from_run sp (cur @ splits) c)
     \<and> (\<forall>u\<in>set (cur @ splits). covers new u)"
  using assms
proof (induction splits arbitrary: docs cur tot)
  case Nil
  from Nil.prems have "2 \<le> length cur \<longrightarrow> length (str_join [separator sp] cur) \<le> chunk_size sp"
    by simp
  from emit_current[OF this, of docs] show ?case by simp
next
  case (Cons d rest)
  let ?sep = "[separator sp]"
  have size: "2 \<le> length cur \<longrightarrow> length (str_join ?sep cur) \<le> chunk_size sp"
    using Cons.prems by simp
  let ?over = "tot + int (length d) + (if length cur > 0 then 1 else 0)
           > int (chunk_size sp) \<and> length cur > 0"
  show ?case
  proof (cases ?over)
    case True
    from Cons.prems(1) have ne: "\<forall>u\<in>set cur. u \<noteq> []" by simp
    from pop_loop_inv[OF ne Cons.prems(2), of sp "int (length d)"] obtain cur' where
      p: "pop_loop sp 1 (int (length d)) cur tot = Inr (cur', int (length (str_join ?sep cur')))"
      and suf: "suffix cur' cur"
      and fit: "cur' = [] \<or> int (length (str_join ?sep cur')) + int (length d) + 1
                  \<le> int (chunk_size sp)"
      by blast
    from emit_current[OF size, of docs] obtain e where
      e: "append_doc docs (join_docs cur ?sep) = docs @ e"
         "\<forall>c\<in>set e. from_run sp cur c" "\<forall>u\<in>set cur. covers e u" by blast
    have step: "merge_loop sp (d # rest) docs cur tot =
        merge_loop sp rest (docs @ e) (cur' @ [d]) (int (length (str_join ?sep (cur' @ [d]))))"
    proof -
      from True have "cur \<noteq> []" "int (chunk_size sp) < tot + int (length d) + 1"
        by (simp_all split: if_splits)
      with p e(1) show ?thesis
        by (simp add: Let_def append_split_inv[OF refl] del: str_join.simps)
    qed
    from suf Cons.prems(1) have ne': "\<forall>u\<in>set (cur' @ [d]) \<union> set rest. u \<noteq> []"
      by (auto simp: suffix_def)
    have fit': "2 \<le> length (cur' @ [d]) \<longrightarrow>
        int (length (str_join ?sep (cur' @ [d]))) \<le> int (chunk_size sp)"
      using fit by (cases "cur' = []") (simp_all add: str_join_snoc)
    from Cons.IH[OF ne' refl fit', of "docs @ e"] obtain new where
      n: "merge_loop sp rest (docs @ e) (cur' @ [d]) (int (length (str_join ?sep (cur' @ [d]))))
            = Inr ((docs @ e) @ new)"
         "\<forall>c\<in>set new. from_run sp ((cur' @ [d]) @ rest) c"
         "\<forall>u\<in>set ((cur' @ [d]) @ rest). covers new u" by blast
    from suf obtain pre where pre: "cur = pre @ cur'" by (auto simp: suffix_def)
    have sub1: "sublist ((cur' @ [d]) @ rest) (cur @ d # rest)"
      unfolding pre sublist_def by (intro exI[of _ pre] exI[of _ "[]"]) simp
    have sub2: "sublist cur (cur @ d # rest)" by simp
    have "merge_loop sp (d # rest) docs cur tot = Inr (docs @ (e @ new))"
      using step n(1) by simp
    moreover have "\<forall>c\<in>set (e @ new). from_run sp (cur @ d # rest) c"
      using e(2) n(2) from_run_mono[OF _ sub1] from_run_mono[OF _ sub2] by auto
    moreover have "\<forall>u\<in>set (cur @ d # rest). covers (e @ new) u"
      using e(3) n(3) covers_mono by auto
    ultimately show ?thesis by blast
  next
    case False
    have step: "merge_loop sp (d # rest) docs cur tot =
        merge_loop sp rest docs (cur @ [d]) (int (length (str_join ?sep (cur @ [d]))))"
    proof (cases "cur = []")
      case True
      with Cons.prems(2) show ?thesis
        by (simp add: Let_def append_split_inv[OF refl] del: str_join.simps)
    next
      case nonempty: False
      with False have "\<not> int (chunk_size sp) < tot + int (length d) + 1" by simp
      with nonempty Cons.prems(2) show ?thesis
        by (simp add: Let_def append_split_inv[OF refl] del: str_join.simps)
    qed
    from Cons.prems(1) have ne': "\<forall>u\<in>set (cur @ [d]) \<union> set rest. u \<noteq> []" by auto
    have fit': "2 \<le> length (cur @ [d]) \<longrightarrow>
        int (length (str_join ?sep (cur @ [d]))) \<le> int (chunk_size sp)"
      using False Cons.prems(2) by (cases "cur = []") (simp_all add: str_join_snoc)
    from Cons.IH[OF ne' refl fit', of docs] step show ?thesis by simp
  qed
qed

lemma split_units_nonempty: "\<forall>u\<in>set (split_text_with_regex text sep). u \<noteq> []"
  by (simp add: split_text_with_regex_def)

lemma split_text_emits:
  "\<exists>chunks. split_text sp text = Inr chunks
     \<and> (\<forall>c\<in>set chunks. from_run sp (split_text_with_regex text (separator sp)) c)
     \<and> (\<forall>u\<in>set (split_text_with_regex text (separator sp)). covers chunks u)"
proof -
  let ?units = "split_text_with_regex text (separator sp)"
  have "\<forall>u\<in>set [] \<union> set ?units. u \<noteq> []"
    using split_units_nonempty by simp
  from merge_loop_emits[OF this, of 0 sp "[]"] show ?thesis
    by (simp add: split_text_def merge_splits_def)
qed

lemma from_run_oversize:
  assumes "from_run sp units c" "chunk_size sp < length c"
  shows "\<exists>u\<in>set units. chunk_size sp < length u \<and> c = strip u"
proof -
  from assms(1) obtain r where c: "c \<noteq> []" and sub: "sublist r units"
    and eq: "c = strip (str_join [separator sp] r)"
    and fit: "2 \<le> length r \<longrightarrow> length (str_join [separator sp] r) \<le> chunk_size sp"
    unfolding from_run_def by blast
  have "length c \<le> length (str_join [separator sp] r)"
    unfolding eq by (rule length_strip_le)
  with assms(2) fit have short: "length r < 2" by simp
  from c eq have "r \<noteq> []" by (auto simp: strip_def)
  with short obtain u where r: "r = [u]"
    by (cases r) (auto simp: less_Suc_eq)
  from sub r have "u \<in> set units" by (auto simp: sublist_def)
  moreover from eq r have "c = strip u" by simp
  moreover from this assms(2) length_strip_le[of u] have "chunk_size sp < length u" by simp
  ultimately show ?thesis by blast
qed

lemma split_on_no_sep: "sep \<notin> set t \<Longrightarrow> split_on sep t = [t]"
  by (induction t) auto

lemma split_text_single:
  assumes "separator sp \<notin> set text" "strip text \<noteq> []"
  shows "split_text sp text = Inr [strip text]"
proof -
  from assms(2) have "text \<noteq> []" by (auto simp: strip_def)
  with assms(1) have u: "split_text_with_regex text (separator sp) = [text]"
    by (simp add: split_text_with_regex_def split_on_no_sep)
  show ?thesis
    using assms(2)
    by (simp add: split_text_def merge_splits_def u Let_def append_split_def append_doc_def
        join_docs_def)
qed

lemma split_text_empty: "split_text sp [] = Inr []"
  by (simp add: split_text_def merge_splits_def split_text_with_regex_def append_doc_def
      join_docs_def strip_def)

lemma isspace_space: "isspace (CHR '' '')" and not_isspace_x: "\<not> isspace (CHR ''x'')"
  by (simp_all add: isspace_def)

lemma strip_padded: "strip (CHR '' '' # replicate 501 (CHR ''x'')) = replicate 501 (CHR ''x'')"
  by (simp add: strip_def isspace_space not_isspace_x)

text \<open>
  Claim C6, as amended. For every input text the splitter of \<open>ingest_docs\<close> (maximum
  size 500, overlap 50, separator newline) raises nothing; every chunk is a non-empty
  string; a chunk longer than 500 characters comes from a single newline-delimited
  piece that is itself longer than 500 characters, and is that piece with the
  whitespace at its two ends stripped, not cut to the maximum size; the empty text
  yields no chunk.
\<close>

theorem chunk_bounds:
  "(\<exists>chunks. split_text the_splitter text = Inr chunks
      \<and> (\<forall>c\<in>set chunks. c \<noteq> []
            \<and> (500 < length c \<longrightarrow>
                 (\<exists>u\<in>set (split_text_with_regex text (CHR 0x0A)). 500 < length u \<and> c = strip u))))
   \<and> split_text the_splitter [] = Inr []"
proof -
  from split_text_emits[of the_splitter "text"] obtain chunks where
    c: "split_text the_splitter text = Inr chunks"
       "\<forall>c\<in>set chunks. from_run the_splitter (split_text_with_regex text (CHR 0x0A)) c"
    by (auto simp: the_splitter_def)
  have "\<forall>c\<in>set chunks. c \<noteq> []
            \<and> (500 < length c \<longrightarrow>
                 (\<exists>u\<in>set (split_text_with_regex text (CHR 0x0A)). 500 < length u \<and> c = strip u))"
  proof
    fix x assume "x \<in> set chunks"
    with c(2) have f: "from_run the_splitter (split_text_with_regex text (CHR 0x0A)) x" by blast
    then have "x \<noteq> []" by (simp add: from_run_def)
    moreover from from_run_oversize[OF f] have "500 < length x \<longrightarrow>
                 (\<exists>u\<in>set (split_text_with_regex text (CHR 0x0A)). 500 < length u \<and> x = strip u)"
      by (simp add: the_splitter_def)
    ultimately show "x \<noteq> [] \<and> (500 < length x \<longrightarrow>
                 (\<exists>u\<in>set (split_text_with_regex text (CHR 0x0A)). 500 < length u \<and> x = strip u))"
      by blast
  qed
  with c(1) split_text_empty show ?thesis by blast
qed

text \<open>
  The claim as stated fails where it says the oversized piece is preserved whole: the
  piece of 502 characters \<open>" xxx...x"\<close> is the only piece of its text, and the chunk
  made from it is the 501 characters \<open>"xxx...x"\<close>, without the leading space.
\<close>

theorem oversize_unit_stripped:
  "split_text_with_regex (CHR '' '' # replicate 501 (CHR ''x'')) (CHR 0x0A)
      = [CHR '' '' # replicate 501 (CHR ''x'')]
   \<and> split_text the_splitter (CHR '' '' # replicate 501 (CHR ''x''))
      = Inr [replicate 501 (CHR ''x'')]"
proof -
  have n: "separator the_splitter \<notin> set (CHR '' '' # replicate 501 (CHR ''x''))"
    by (simp add: the_splitter_def)
  from split_text_single[OF n] have
    "split_text the_splitter (CHR '' '' # replicate 501 (CHR ''x''))
      = Inr [replicate 501 (CHR ''x'')]"
    by (simp add: strip_padded)
  moreover from n have "split_text_with_regex (CHR '' '' # replicate 501 (CHR ''x'')) (CHR 0x0A)
      = [CHR '' '' # replicate 501 (CHR ''x'')]"
    by (simp add: split_text_with_regex_def split_on_no_sep the_splitter_def)
  ultimately show ?thesis by simp
qed

theorem chunk_bounds_witness:
  "split_text the_splitter (CHR '' '' # replicate 501 (CHR ''x'')) = Inr [replicate 501 (CHR ''x'')]
   \<and> replicate 501 (CHR ''x'') \<noteq> []
   \<and> 500 < length (replicate 501 (CHR ''x''))
   \<and> split_text_with_regex (CHR '' '' # replicate 501 (CHR ''x'')) (CHR 0x0A)
        = [CHR '' '' # replicate 501 (CHR ''x'')]
   \<and> 500 < length (CHR '' '' # replicate 501 (CHR ''x''))
   \<and> replicate 501 (CHR ''x'') = strip (CHR '' '' # replicate 501 (CHR ''x''))
   \<and> split_text the_splitter [] = Inr []"
proof -
  have n: "separator the_splitter \<notin> set (CHR '' '' # replicate 501 (CHR ''x''))"
    by (simp add: the_splitter_def)
  from split_text_single[OF n] have e:
    "split_text the_splitter (CHR '' '' # replicate 501 (CHR ''x''))
      = Inr [replicate 501 (CHR ''x'')]"
    by (simp add: strip_padded)
  from n have u: "split_text_with_regex (CHR '' '' # replicate 501 (CHR ''x'')) (CHR 0x0A)
      = [CHR '' '' # replicate 501 (CHR ''x'')]"
    by (simp add: split_text_with_regex_def split_on_no_sep the_splitter_def)
  from chunk_bounds[of "CHR '' '' # replicate 501 (CHR ''x'')"] e u show ?thesis
    by simp
qed

lemma split_on_nonempty: "split_on sep t \<noteq> []"
  by (induction t) (auto split: list.splits)

lemma str_join_Cons_char: "str_join sep ((x # y) # ys) = x # str_join sep (y # ys)"
  by (cases ys) simp_all

lemma join_split_on: "str_join [sep] (split_on sep t) = t"
proof (induction t)
  case Nil
  then show ?case by simp
next
  case (Cons x xs)
  show ?case
  proof (cases "x = sep")
    case True
    with Cons split_on_nonempty[of sep xs] show ?thesis
      by (simp add: str_join_Cons)
  next
    case False
    from split_on_nonempty[of sep xs] obtain y ys where s: "split_on sep xs = y # ys"
      by (cases "split_on sep xs") auto
    with False Cons show ?thesis
      by (simp add: str_join_Cons_char del: str_join.simps)
  qed
qed

lemma chunks_of_Cons:
  "chunks_of sep (r # runs) = append_doc [] (join_docs (fst r @ snd r) [sep]) @ chunks_of sep runs"
  by (simp add: chunks_of_def List.map_filter_simps append_doc_def split: option.splits)

lemma chunks_of_Nil: "chunks_of sep [] = []"
  by (simp add: chunks_of_def List.map_filter_simps)

lemma append_doc_append: "append_doc docs doc = docs @ append_doc [] doc"
  by (simp add: append_doc_def split: option.splits)

lemma merge_loop_step_emit:
  assumes "cur \<noteq> []" "int (chunk_size sp) < tot + int (length d) + 1"
    and "pop_loop sp 1 (int (length d)) cur tot
           = Inr (cur', int (length (str_join [separator sp] cur')))"
  shows "merge_loop sp (d # rest) docs cur tot =
        merge_loop sp rest (append_doc docs (join_docs cur [separator sp])) (cur' @ [d])
          (int (length (str_join [separator sp] (cur' @ [d]))))"
  using assms by (simp add: Let_def append_split_inv[OF refl] del: str_join.simps)

lemma merge_loop_step_append:
  assumes "cur = [] \<or> \<not> int (chunk_size sp) < tot + int (length d) + 1"
    and "tot = int (length (str_join [separator sp] cur))"
  shows "merge_loop sp (d # rest) docs cur tot =
        merge_loop sp rest docs (cur @ [d])
          (int (length (str_join [separator sp] (cur @ [d]))))"
proof (cases "cur = []")
  case True
  with assms(2) show ?thesis
    by (simp add: Let_def append_split_inv[OF refl] del: str_join.simps)
next
  case False
  with assms show ?thesis
    by (simp add: Let_def append_split_inv[OF refl] del: str_join.simps)
qed

lemma merge_loop_runs:
  assumes "\<forall>u\<in>set (s @ p) \<union> set splits. u \<noteq> []"
    and "tot = int (length (str_join [separator sp] (s @ p)))"
    and "suffix s prev"
  shows "\<exists>runs. merge_loop sp splits docs (s @ p) tot = Inr (docs @ chunks_of (separator sp) runs)
     \<and> concat (map snd runs) = p @ splits
     \<and> overlaps_from prev runs"
  using assms
proof (induction splits arbitrary: docs s p tot prev)
  case Nil
  have "merge_loop sp [] docs (s @ p) tot = Inr (docs @ chunks_of (separator sp) [(s, p)])"
    by (simp add: chunks_of_Cons chunks_of_Nil append_doc_append[of docs])
  moreover have "concat (map snd [(s, p)]) = p @ []" by simp
  moreover from Nil.prems(3) have "overlaps_from prev [(s, p)]" by simp
  ultimately show ?case by blast
next
  case (Cons d rest)
  let ?sep = "[separator sp]"
  define cur where "cur = s @ p"
  have tot: "tot = int (length (str_join ?sep cur))"
    using Cons.prems(2) by (simp only: cur_def)
  have ne: "\<forall>u\<in>set cur. u \<noteq> []"
    using Cons.prems(1) by (simp add: cur_def)
  have d: "d \<noteq> []" and rest: "\<forall>u\<in>set rest. u \<noteq> []"
    using Cons.prems(1) by simp_all
  show ?case
  proof (cases "cur \<noteq> [] \<and> int (chunk_size sp) < tot + int (length d) + 1")
    case True
    from pop_loop_inv[OF ne tot, of sp "int (length d)"] obtain cur' where
      pl: "pop_loop sp 1 (int (length d)) cur tot
            = Inr (cur', int (length (str_join ?sep cur')))"
      and suf: "suffix cur' cur"
      by blast
    from True have c1: "cur \<noteq> []" and c2: "int (chunk_size sp) < tot + int (length d) + 1"
      by simp_all
    note step = merge_loop_step_emit[OF c1 c2 pl, of rest docs]
    from suf have "set cur' \<subseteq> set cur" by (rule set_mono_suffix)
    with ne have "\<forall>u\<in>set cur'. u \<noteq> []" by blast
    with d rest have ne': "\<forall>u\<in>set (cur' @ [d]) \<union> set rest. u \<noteq> []"
      by (simp add: ball_Un)
    from Cons.IH[OF ne' refl suf, of "append_doc docs (join_docs cur ?sep)"] obtain runs where
      r: "merge_loop sp rest (append_doc docs (join_docs cur ?sep)) (cur' @ [d])
            (int (length (str_join ?sep (cur' @ [d]))))
          = Inr (append_doc docs (join_docs cur ?sep) @ chunks_of (separator sp) runs)"
         "concat (map snd runs) = [d] @ rest"
         "overlaps_from cur runs" by blast
    have "append_doc docs (join_docs cur ?sep) @ chunks_of (separator sp) runs
         = docs @ chunks_of (separator sp) ((s, p) # runs)"
      by (simp add: chunks_of_Cons append_doc_append[of docs] cur_def)
    with step r(1) have "merge_loop sp (d # rest) docs cur tot
        = Inr (docs @ chunks_of (separator sp) ((s, p) # runs))"
      by (simp only:)
    moreover have "concat (map snd ((s, p) # runs)) = p @ d # rest"
      using r(2) by simp
    moreover have "overlaps_from prev ((s, p) # runs)"
      using Cons.prems(3) r(3) by (simp add: cur_def)
    ultimately show ?thesis unfolding cur_def by blast
  next
    case False
    then have c: "cur = [] \<or> \<not> int (chunk_size sp) < tot + int (length d) + 1" by blast
    note step = merge_loop_step_append[OF c tot, of rest docs]
    have e: "cur @ [d] = s @ (p @ [d])" by (simp add: cur_def)
    from ne d rest have ne': "\<forall>u\<in>set (s @ (p @ [d])) \<union> set rest. u \<noteq> []"
      by (simp add: ball_Un cur_def)
    from Cons.IH[OF ne' refl Cons.prems(3), of docs] obtain runs where
      r: "merge_loop sp rest docs (s @ (p @ [d]))
            (int (length (str_join ?sep (s @ (p @ [d])))))
          = Inr (docs @ chunks_of (separator sp) runs)"
         "concat (map snd runs) = (p @ [d]) @ rest"
         "overlaps_from prev runs" by blast
    from step r(1) have "merge_loop sp (d # rest) docs cur tot
          = Inr (docs @ chunks_of (separator sp) runs)"
      by (simp only: e)
    moreover from r(2) have "concat (map snd runs) = p @ d # rest" by simp
    ultimately show ?thesis using r(3) unfolding cur_def by blast
  qed
qed

lemma split_text_runs:
  "\<exists>runs. split_text sp t = Inr (chunks_of (separator sp) runs)
     \<and> concat (map snd runs) = split_text_with_regex t (separator sp)
     \<and> overlaps_from [] runs"
proof -
  let ?units = "split_text_with_regex t (separator sp)"
  have ne: "\<forall>u\<in>set ([] @ []) \<union> set ?units. u \<noteq> []"
    using split_units_nonempty by simp
  have z: "(0::int) = int (length (str_join [separator sp] ([] @ [])))" by simp
  have sf: "suffix ([]::string list) []" by simp
  from merge_loop_runs[OF ne z sf, of "[]"] show ?thesis
    by (simp add: split_text_def merge_splits_def)
qed

text \<open>
  Claim C5, as amended. For every document text, the text is the newline-join of its
  lines, and chunking it yields, in order, the chunks of a sequence of runs of its
  non-empty lines: each run begins with lines repeated from the end of the run before
  it (its overlap; the first run has none), and the runs with these overlaps removed,
  concatenated, are exactly the sequence of the non-empty lines of the text, in order;
  each chunk is the newline-join of one run with the whitespace at its two ends
  stripped, a run that is all whitespace giving no chunk. So no line content is
  dropped: every line that is not all whitespace occurs, with the whitespace at its
  two ends stripped, inside some chunk. (What is lost are separators between chunks,
  empty lines and whitespace at the ends of a chunk.)
\<close>

theorem chunks_tile_pieces:
  "\<exists>runs. split_text the_splitter txt = Inr (chunks_of (CHR 0x0A) runs)
     \<and> concat (map snd runs) = split_text_with_regex txt (CHR 0x0A)
     \<and> overlaps_from [] runs
     \<and> str_join [CHR 0x0A] (split_on (CHR 0x0A) txt) = txt
     \<and> (\<forall>u\<in>set (split_text_with_regex txt (CHR 0x0A)).
           strip u \<noteq> [] \<longrightarrow> (\<exists>c\<in>set (chunks_of (CHR 0x0A) runs). sublist (strip u) c))"
proof -
  from split_text_runs[of the_splitter "txt"] obtain runs where
    r: "split_text the_splitter txt = Inr (chunks_of (CHR 0x0A) runs)"
       "concat (map snd runs) = split_text_with_regex txt (CHR 0x0A)"
       "overlaps_from [] runs"
    by (auto simp: the_splitter_def)
  from split_text_emits[of the_splitter "txt"] r(1)
  have "\<forall>u\<in>set (split_text_with_regex txt (CHR 0x0A)). covers (chunks_of (CHR 0x0A) runs) u"
    by (auto simp: the_splitter_def)
  then have c: "\<forall>u\<in>set (split_text_with_regex txt (CHR 0x0A)).
           strip u \<noteq> [] \<longrightarrow> (\<exists>c\<in>set (chunks_of (CHR 0x0A) runs). sublist (strip u) c)"
    by (simp add: covers_def)
  from r c join_split_on[of "CHR 0x0A" "txt"] show ?thesis by blast
qed

text \<open>
  The claim as stated fails: the text \<open>" a"\<close> gives the single chunk \<open>"a"\<close>, so there
  is no overlap to remove and the concatenation of the chunks is not the text; its
  leading space is dropped.
\<close>

theorem leading_space_dropped:
  "split_text the_splitter '' a'' = Inr [''a''] \<and> concat [''a''] \<noteq> '' a''"
  by (simp add: split_text_def merge_splits_def split_text_with_regex_def the_splitter_def
      Let_def append_split_def append_doc_def join_docs_def strip_def isspace_def)

theorem chunks_tile_pieces_witness:
  "split_text the_splitter ''ab\<newline> cd'' = Inr [''ab\<newline> cd'']
   \<and> chunks_of (CHR 0x0A) [([], [''ab'', '' cd''])] = [''ab\<newline> cd'']
   \<and> concat (map snd [([], [''ab'', '' cd''])]) = split_text_with_regex ''ab\<newline> cd'' (CHR 0x0A)
   \<and> overlaps_from [] [([], [''ab'', '' cd''])]
   \<and> str_join [CHR 0x0A] (split_on (CHR 0x0A) ''ab\<newline> cd'') = ''ab\<newline> cd''
   \<and> '' cd'' \<in> set (split_text_with_regex ''ab\<newline> cd'' (CHR 0x0A))
   \<and> strip '' cd'' \<noteq> []
   \<and> sublist (strip '' cd'') ''ab\<newline> cd''"
proof -
  have e: "split_text the_splitter ''ab\<newline> cd'' = Inr [''ab\<newline> cd'']"
    by (simp add: split_text_def merge_splits_def split_text_with_regex_def the_splitter_def
      Let_def append_split_def append_doc_def join_docs_def strip_def isspace_def)
  have u: "split_text_with_regex ''ab\<newline> cd'' (CHR 0x0A) = [''ab'', '' cd'']"
    by (simp add: split_text_with_regex_def)
  have s: "strip '' cd'' = ''cd''" by (simp add: strip_def isspace_def)
  have c: "chunks_of (CHR 0x0A) [([], [''ab'', '' cd''])] = [''ab\<newline> cd'']"
    by (simp add: chunks_of_def List.map_filter_simps join_docs_def strip_def isspace_def)
  from chunks_tile_pieces[of "''ab\<newline> cd''"] obtain runs where
    r: "split_text the_splitter ''ab\<newline> cd'' = Inr (chunks_of (CHR 0x0A) runs)"
       "str_join [CHR 0x0A] (split_on (CHR 0x0A) ''ab\<newline> cd'') = ''ab\<newline> cd''"
       "\<forall>u\<in>set (split_text_with_regex ''ab\<newline> cd'' (CHR 0x0A)).
           strip u \<noteq> [] \<longrightarrow> (\<exists>c\<in>set (chunks_of (CHR 0x0A) runs). sublist (strip u) c)"
    by blast
  from r(1) e have "chunks_of (CHR 0x0A) runs = [''ab\<newline> cd'']" by simp
  with r(3) u s have "sublist (strip '' cd'') ''ab\<newline> cd''" by simp
  with e u s c r(2) show ?thesis by simp
qed

text \<open>
  With a smaller splitter the overlap shows: of the pieces \<open>ab\<close>, \<open>cd\<close>, \<open>ef\<close> the
  second run repeats \<open>cd\<close>.
\<close>

lemma small_splitter_runs:
  "split_text \<lparr>separator = CHR '','', chunk_size = 5, chunk_overlap = 2\<rparr> ''ab,cd,ef''
     = Inr [''ab,cd'', ''cd,ef'']
   \<and> chunks_of (CHR '','') [([], [''ab'', ''cd'']), ([''cd''], [''ef''])]
     = [''ab,cd'', ''cd,ef'']
   \<and> overlaps_from [] [([], [''ab'', ''cd'']), ([''cd''], [''ef''])]"
  by (simp add: split_text_def merge_splits_def split_text_with_regex_def
      Let_def append_split_def append_doc_def join_docs_def strip_def isspace_def
      chunks_of_def List.map_filter_simps suffix_def)

section \<open>Searching the index\<close>

lemma candidates_length:
  "length (candidates dist q i xs) = length (filter (\<lambda>x. dist q x \<noteq> None) xs)"
  by (induction xs arbitrary: i) (auto split: option.splits)

lemma candidates_members:
  "h \<in> set (candidates dist q i xs) \<Longrightarrow>
     i \<le> fst h \<and> fst h < i + length xs \<and> dist q (xs ! (fst h - i)) = Some (snd h)"
proof (induction xs arbitrary: i)
  case Nil
  then show ?case by simp
next
  case (Cons x xs)
  show ?case
  proof (cases "h \<in> set (candidates dist q (Suc i) xs)")
    case True
    from Cons.IH[OF True] show ?thesis
      by (auto simp: nth_Cons' Suc_diff_le)
  next
    case False
    with Cons.prems obtain d where "dist q x = Some d" "h = (i, d)"
      by (auto split: option.splits)
    then show ?thesis by simp
  qed
qed

lemma candidates_distinct: "distinct (map fst (candidates dist q i xs))"
proof (induction xs arbitrary: i)
  case Nil
  then show ?case by simp
next
  case (Cons x xs)
  have "i \<notin> fst ` set (candidates dist q (Suc i) xs)"
    using candidates_members[of _ dist q "Suc i" xs] by fastforce
  with Cons.IH[of "Suc i"] show ?case by (auto split: option.splits)
qed

lemma knn_length:
  "length (knn dist xb q k) = min k (length (filter (\<lambda>x. dist q x \<noteq> None) xb))"
  by (simp add: knn_def candidates_length)

lemma knn_sorted: "sorted (map snd (knn dist xb q k))"
proof -
  have "sorted (map snd (sort_key snd (candidates dist q 0 xb)))"
    by (rule sorted_sort_key)
  then have "sorted (take k (map snd (sort_key snd (candidates dist q 0 xb))))"
    by (rule sorted_wrt_take)
  then show ?thesis by (simp add: knn_def take_map)
qed

lemma knn_distinct: "distinct (map fst (knn dist xb q k))"
proof -
  let ?z = "candidates dist q 0 xb"
  have "distinct (map fst ?z)" by (rule candidates_distinct)
  then have "distinct ?z \<and> inj_on fst (set ?z)" unfolding distinct_map .
  then have "distinct (sort_key snd ?z) \<and> inj_on fst (set (sort_key snd ?z))" by simp
  then have "distinct (map fst (sort_key snd ?z))" unfolding distinct_map .
  then have "distinct (take k (map fst (sort_key snd ?z)))" by (rule distinct_take)
  then show ?thesis by (simp add: knn_def take_map)
qed

lemma knn_members:
  assumes "h \<in> set (knn dist xb q k)"
  shows "fst h < length xb \<and> dist q (xb ! fst h) = Some (snd h)"
proof -
  from assms have "h \<in> set (sort_key snd (candidates dist q 0 xb))"
    unfolding knn_def by (rule in_set_takeD)
  then have "h \<in> set (candidates dist q 0 xb)" by simp
  from candidates_members[OF this] show ?thesis by simp
qed

lemma l2sq_f32_small:
  "l2sq_f32 [0] [5] = Some 25" "l2sq_f32 [0] [1] = Some 1" "l2sq_f32 [1] [0] = Some 1"
  "l2sq_f32 [0] [20000000000000000000] = None"
  by (simp_all add: l2sq_f32_def l2sq_def)

text \<open>
  Claim C3, as amended. For every index state and every query vector, a search with
  \<open>k > 0\<close> (the program passes \<open>k = 3\<close>) returns exactly \<open>k\<close> (position, distance)
  pairs. The first \<open>min k m\<close> of them, \<open>m\<close> being the number of indexed vectors whose
  computed distance to the query is a float below the largest float (all of them,
  unless a distance overflows or is NaN), are pairwise distinct positions of such
  vectors, each with the squared Euclidean distance of its vector to the query,
  sorted ascending by distance; the remaining pairs are padding with position \<open>-1\<close>.
  On an empty index the result is \<open>k\<close> padding pairs, not an error. A search with
  \<open>k \<le> 0\<close> fails the wrapper's assertion.
\<close>

theorem index_search_shape:
  "(0 < k \<longrightarrow>
      (\<exists>hits. length hits = min (nat k) (length (filter (\<lambda>x. dist q x \<noteq> None) xb))
         \<and> sorted (map snd hits) \<and> distinct (map fst hits)
         \<and> (\<forall>h\<in>set hits. fst h < length xb \<and> dist q (xb ! fst h) = Some (snd h))
         \<and> index_search dist xb q k =
             Inr (map (\<lambda>h. Some (snd h)) hits @ replicate (nat k - length hits) None,
                  map (\<lambda>h. int (fst h)) hits @ replicate (nat k - length hits) (- 1))))
   \<and> (k \<le> 0 \<longrightarrow> index_search dist xb q k = Inl AssertionError)"
proof (intro conjI impI)
  assume k: "0 < k"
  let ?hits = "knn dist xb q (nat k)"
  from k have "index_search dist xb q k =
         Inr (map (\<lambda>h. Some (snd h)) ?hits @ replicate (nat k - length ?hits) None,
              map (\<lambda>h. int (fst h)) ?hits @ replicate (nat k - length ?hits) (- 1))"
    by (simp add: index_search_def Let_def)
  with knn_length[of dist xb q "nat k"] knn_sorted[of dist xb q "nat k"]
    knn_distinct[of dist xb q "nat k"] knn_members[of _ dist xb q "nat k"]
  show "\<exists>hits. length hits = min (nat k) (length (filter (\<lambda>x. dist q x \<noteq> None) xb))
         \<and> sorted (map snd hits) \<and> distinct (map fst hits)
         \<and> (\<forall>h\<in>set hits. fst h < length xb \<and> dist q (xb ! fst h) = Some (snd h))
         \<and> index_search dist xb q k =
             Inr (map (\<lambda>h. Some (snd h)) hits @ replicate (nat k - length hits) None,
                  map (\<lambda>h. int (fst h)) hits @ replicate (nat k - length hits) (- 1))"
    by blast
next
  assume "k \<le> 0"
  then show "index_search dist xb q k = Inl AssertionError"
    by (simp add: index_search_def)
qed

theorem index_search_shape_witness:
  "(0::int) < 3
   \<and> index_search l2sq_f32 [[5], [20000000000000000000], [1]] [0] 3
        = Inr ([Some 1, Some 25, None], [2, 0, - 1])
   \<and> length (filter (\<lambda>x. l2sq_f32 [0] x \<noteq> None) [[5], [20000000000000000000], [1]]) = 2
   \<and> sorted [1, 25 :: int] \<and> distinct [2, 0 :: nat]
   \<and> l2sq_f32 [0] ([[5], [20000000000000000000], [1]] ! 2) = Some 1
   \<and> l2sq_f32 [0] ([[5], [20000000000000000000], [1]] ! 0) = Some 25
   \<and> (0::int) \<le> 0
   \<and> index_search l2sq_f32 [[5], [20000000000000000000], [1]] [0] 0 = Inl AssertionError"
proof -
  have e: "index_search l2sq_f32 [[5], [20000000000000000000], [1]] [0] 3
        = Inr ([Some 1, Some 25, None], [2, 0, - 1])"
    by (simp add: index_search_def knn_def l2sq_f32_small Let_def numeral_nat)
  from index_search_shape[of 0 l2sq_f32 "[0]" "[[5], [20000000000000000000], [1]]"]
  have b: "index_search l2sq_f32 [[5], [20000000000000000000], [1]] [0] 0 = Inl AssertionError"
    by simp
  from index_search_shape[of 3 l2sq_f32 "[0]" "[[5], [20000000000000000000], [1]]"] e b
  show ?thesis
    by (simp add: l2sq_f32_small)
qed

text \<open>
  The claim as stated fails: an index of one vector searched with \<open>k = 3\<close> returns three
  pairs, not \<open>min 3 1 = 1\<close>, and a search with \<open>k = 0\<close> raises.
\<close>

theorem search_pads_short_index:
  "index_search l2sq_f32 [[0]] [1] 3 = Inr ([Some 1, None, None], [0, - 1, - 1])
   \<and> min (3::nat) (length [[0::int]]) = 1
   \<and> index_search l2sq_f32 [[0]] [1] 0 = Inl AssertionError"
  by (simp add: index_search_def knn_def l2sq_f32_small Let_def numeral_nat)

text \<open>
  Claim C1 at a store of one chunk. The search with \<open>k = 3\<close> returns the labels
  \<open>0, -1, -1\<close> (the distance of the one vector being below the largest float); \<open>-1\<close>
  is not a position of the chunk sequence, and Python's indexing wraps it around to
  the last chunk, so the chunk is read three times.
\<close>

theorem short_store_wraps:
  "index_search (\<lambda>q x. Some (dist q x)) [v] q 3
      = Inr ([Some (dist q v), None, None], [0, - 1, - 1])
   \<and> py_index [c] (- 1) = Inr c
   \<and> texts_at [c] [0, - 1, - 1] = Inr [c, c, c]"
  by (simp add: index_search_def knn_def Let_def numeral_nat py_index_def)

text \<open>
  On a store of one chunk the three results are that chunk three times, whatever the
  distance is: a vector that is not a result leaves one more label \<open>-1\<close>.
\<close>

lemma one_chunk_results:
  "exn_bind (index_search dist [v] q 3) (\<lambda>DI. exn_bind (texts_at [c] (snd DI)) f)
     = f [c, c, c]"
  by (cases "dist q v")
     (simp_all add: index_search_def knn_def Let_def numeral_nat py_index_def)

text \<open>
  Claim C7 on the code. After login, ingesting the single document
  \<open>"The cat sat.\n\nThe dog ran."\<close> reports 1 chunk and stores the one chunk
  \<open>"The cat sat.\nThe dog ran."\<close>; the query \<open>"cat"\<close> then answers with that chunk
  three times, joined by the separator line, not with the chunk as its only result.
\<close>

theorem cat_document_pipeline:
  "run_ops (\<lambda>creds doc_id. Inr (text_doc cat_text)) emb dist init_state
      [Login (Inr creds0), Ingest [''doc''], Query ''cat'']
   = (\<lparr>USER_CREDENTIALS = [''default_user'' \<mapsto> creds0],
       VECTOR_STORE = [''default_user'' \<mapsto> \<lparr>index = [emb cat_chunk], texts = [cat_chunk]\<rparr>]\<rparr>,
      [Inr Connected, Inr (Ingested 1),
       Inr (ChatResponse ''cat''
         (cat_chunk @ ''\<newline>---\<newline>'' @ cat_chunk @ ''\<newline>---\<newline>'' @ cat_chunk))])"
proof -
  have x: "extract_text (text_doc cat_text) = Inr cat_text"
    by (simp add: extract_text_def text_doc_def dict_get_def py_iter_def py_in_def
        py_getitem_def)
  have sp: "split_text the_splitter cat_text = Inr [cat_chunk]"
    by (simp add: split_text_def merge_splits_def split_text_with_regex_def the_splitter_def
      Let_def append_split_def append_doc_def join_docs_def strip_def isspace_def
      cat_text_def cat_chunk_def)
  show ?thesis
    by (simp add: oauth2callback_def init_state_def ingest_docs_def chat_query_def
        get_credentials_for_user_def x sp one_chunk_results encode_def index_add_def Let_def)
qed

section \<open>Ingestion and queries\<close>

lemma fetch_loop_fails:
  "doc_id \<in> set doc_ids \<Longrightarrow> get doc_id = Inl e \<Longrightarrow> \<exists>e'. fetch_loop get doc_ids acc = Inl e'"
proof (induction doc_ids arbitrary: acc)
  case Nil
  then show ?case by simp
next
  case (Cons x xs)
  show ?case
  proof (cases "get x")
    case (Inl a)
    then show ?thesis by simp
  next
    case (Inr doc)
    with Cons.prems have mem: "doc_id \<in> set xs" by auto
    show ?thesis
    proof (cases "extract_text doc")
      case (Inl a)
      with Inr show ?thesis by simp
    next
      case r: (Inr t)
      from Cons.IH[of "acc @ [t]"] mem Cons.prems(2) Inr r show ?thesis by simp
    qed
  qed
qed

lemma fetch_loop_succeeds:
  "fetch_loop get doc_ids acc = Inr r \<Longrightarrow> \<forall>doc_id\<in>set doc_ids. \<exists>doc. get doc_id = Inr doc"
proof (rule ballI, rule ccontr)
  fix doc_id
  assume ok: "fetch_loop get doc_ids acc = Inr r" and mem: "doc_id \<in> set doc_ids"
    and no: "\<nexists>doc. get doc_id = Inr doc"
  from no obtain e where "get doc_id = Inl e" by (cases "get doc_id") auto
  with mem fetch_loop_fails[of doc_id doc_ids get e acc] ok show False by simp
qed

lemma ingest_docs_cases:
  "(\<exists>e. ingest_docs fetch emb s doc_ids = (s, Inl e))
   \<or> ingest_docs fetch emb s doc_ids
        = (s, Inr (JSONResponse ''not authenticated. visit /login'' 401))
   \<or> (\<exists>creds all_chunks chunks.
         get_credentials_for_user s ''default_user'' = Some creds
       \<and> fetch_loop (fetch creds) doc_ids [] = Inr all_chunks
       \<and> split_loop all_chunks [] = Inr chunks \<and> chunks \<noteq> []
       \<and> ingest_docs fetch emb s doc_ids
           = (s\<lparr>VECTOR_STORE := (VECTOR_STORE s)
                  (''default_user'' \<mapsto> \<lparr>index = map emb chunks, texts = chunks\<rparr>)\<rparr>,
              Inr (Ingested (length chunks))))"
  by (auto simp: ingest_docs_def Let_def encode_def index_add_def exn_bind_def
      split: option.splits sum.splits)

text \<open>
  Claim C2. Ingestion is atomic with respect to the session's vector store: if the
  fetch of any requested document fails, the call fails (it raises) and the state,
  with any vector store the session had, is unchanged; whenever the call does not
  report an ingestion the state is unchanged; and it reports an ingestion, replacing
  the store, only when every document fetch succeeded.
\<close>

theorem ingest_atomic:
  "(get_credentials_for_user s ''default_user'' = Some creds \<and> doc_id \<in> set doc_ids
      \<and> fetch creds doc_id = Inl e
      \<longrightarrow> (\<exists>e'. ingest_docs fetch emb s doc_ids = (s, Inl e')))
   \<and> (\<not> is_ingested (snd (ingest_docs fetch emb s doc_ids))
      \<longrightarrow> fst (ingest_docs fetch emb s doc_ids) = s)
   \<and> (is_ingested (snd (ingest_docs fetch emb s doc_ids))
      \<longrightarrow> (\<exists>creds. get_credentials_for_user s ''default_user'' = Some creds
            \<and> (\<forall>doc_id\<in>set doc_ids. \<exists>doc. fetch creds doc_id = Inr doc)))"
proof (intro conjI impI)
  assume a: "get_credentials_for_user s ''default_user'' = Some creds \<and> doc_id \<in> set doc_ids
      \<and> fetch creds doc_id = Inl e"
  then obtain e' where "fetch_loop (fetch creds) doc_ids [] = Inl e'"
    using fetch_loop_fails[of doc_id doc_ids "fetch creds" e "[]"] by blast
  with a show "\<exists>e'. ingest_docs fetch emb s doc_ids = (s, Inl e')"
    by (simp add: ingest_docs_def Let_def)
next
  assume "\<not> is_ingested (snd (ingest_docs fetch emb s doc_ids))"
  with ingest_docs_cases[of fetch emb s doc_ids]
  show "fst (ingest_docs fetch emb s doc_ids) = s"
    by (auto simp: is_ingested_def)
next
  assume "is_ingested (snd (ingest_docs fetch emb s doc_ids))"
  with ingest_docs_cases[of fetch emb s doc_ids] obtain creds all_chunks where
    "get_credentials_for_user s ''default_user'' = Some creds"
    "fetch_loop (fetch creds) doc_ids [] = Inr all_chunks"
    by (auto simp: is_ingested_def)
  with fetch_loop_succeeds[of "fetch creds" doc_ids "[]" all_chunks]
  show "\<exists>creds. get_credentials_for_user s ''default_user'' = Some creds
            \<and> (\<forall>doc_id\<in>set doc_ids. \<exists>doc. fetch creds doc_id = Inr doc)"
    by blast
qed

lemma chat_query_state: "fst (chat_query emb dist s query) = s"
  by (simp add: chat_query_def Let_def split: option.splits)

lemma store_inv_map: "store_inv emb \<lparr>index = map emb chunks, texts = chunks\<rparr>"
  by (simp add: store_inv_def)

lemma ingest_docs_stores_ok:
  assumes "stores_ok emb s"
  shows "stores_ok emb (fst (ingest_docs fetch emb s doc_ids))"
  using ingest_docs_cases[of fetch emb s doc_ids] assms
  by (auto simp: stores_ok_def store_inv_map split: if_splits)

lemma step_stores_ok:
  assumes "stores_ok emb s"
  shows "stores_ok emb (fst (step fetch emb dist x s))"
proof (cases x)
  case (Login outcome)
  with assms show ?thesis
    by (auto simp: oauth2callback_def stores_ok_def split: sum.splits)
next
  case (Ingest doc_ids)
  with ingest_docs_stores_ok[OF assms] show ?thesis by simp
next
  case (Query query)
  with assms show ?thesis by (simp add: chat_query_state)
qed

lemma run_ops_stores_ok:
  "stores_ok emb s \<Longrightarrow> stores_ok emb (fst (run_ops fetch emb dist s ops))"
proof (induction ops arbitrary: s)
  case Nil
  then show ?case by simp
next
  case (Cons x xs)
  obtain s1 r where st: "step fetch emb dist x s = (s1, r)" by (cases "step fetch emb dist x s")
  obtain s2 rs where rn: "run_ops fetch emb dist s1 xs = (s2, rs)"
    by (cases "run_ops fetch emb dist s1 xs")
  from step_stores_ok[OF Cons.prems, of fetch dist x] st have "stores_ok emb s1" by simp
  from Cons.IH[OF this] rn have "stores_ok emb s2" by simp
  with st rn show ?case by simp
qed

lemma init_stores_ok: "stores_ok emb init_state"
  by (simp add: stores_ok_def init_state_def)

text \<open>
  Claim C4. After every successful ingestion call the session has a vector store whose
  chunk-text sequence is as long as its index, the vector at each position being the
  embedding of the chunk text at that position (and the reported count is that
  length); every operation preserves this invariant of the stores, so it holds in
  every state the application reaches.
\<close>

theorem vector_store_invariant:
  "(ingest_docs fetch emb s doc_ids = (s', Inr (Ingested n))
      \<longrightarrow> (\<exists>st. VECTOR_STORE s' ''default_user'' = Some st \<and> store_inv emb st
              \<and> length (texts st) = n))
   \<and> (stores_ok emb s \<longrightarrow> stores_ok emb (fst (step fetch emb dist x s)))
   \<and> stores_ok emb (fst (run_ops fetch emb dist init_state ops))"
proof (intro conjI impI)
  assume "ingest_docs fetch emb s doc_ids = (s', Inr (Ingested n))"
  with ingest_docs_cases[of fetch emb s doc_ids]
  show "\<exists>st. VECTOR_STORE s' ''default_user'' = Some st \<and> store_inv emb st
              \<and> length (texts st) = n"
    by (auto simp: store_inv_map)
next
  assume "stores_ok emb s"
  then show "stores_ok emb (fst (step fetch emb dist x s))" by (rule step_stores_ok)
next
  show "stores_ok emb (fst (run_ops fetch emb dist init_state ops))"
    using init_stores_ok by (rule run_ops_stores_ok)
qed

lemma step_no_store:
  assumes "VECTOR_STORE s ''default_user'' = None" "\<not> is_ingested (snd (step fetch emb dist x s))"
  shows "VECTOR_STORE (fst (step fetch emb dist x s)) ''default_user'' = None"
proof (cases x)
  case (Login outcome)
  with assms(1) show ?thesis by (auto simp: oauth2callback_def split: sum.splits)
next
  case (Ingest doc_ids)
  with assms ingest_docs_cases[of fetch emb s doc_ids] show ?thesis
    by (auto simp: is_ingested_def)
next
  case (Query query)
  with assms(1) show ?thesis by (simp add: chat_query_state)
qed

lemma run_ops_no_store:
  "VECTOR_STORE s ''default_user'' = None \<Longrightarrow>
   list_all (\<lambda>r. \<not> is_ingested r) (snd (run_ops fetch emb dist s ops)) \<Longrightarrow>
   VECTOR_STORE (fst (run_ops fetch emb dist s ops)) ''default_user'' = None"
proof (induction ops arbitrary: s)
  case Nil
  then show ?case by simp
next
  case (Cons x xs)
  obtain s1 r where st: "step fetch emb dist x s = (s1, r)" by (cases "step fetch emb dist x s")
  obtain s2 rs where rn: "run_ops fetch emb dist s1 xs = (s2, rs)"
    by (cases "run_ops fetch emb dist s1 xs")
  from Cons.prems(2) st rn have r: "\<not> is_ingested r" and rs: "list_all (\<lambda>r. \<not> is_ingested r) rs"
    by simp_all
  from step_no_store[of s fetch emb dist x] Cons.prems(1) st r
  have "VECTOR_STORE s1 ''default_user'' = None" by simp
  from Cons.IH[OF this] rn rs have "VECTOR_STORE s2 ''default_user'' = None" by simp
  with st rn show ?case by simp
qed

text \<open>
  Claim C8. A chat query issued when the session has no vector store returns the
  error value \<open>No documents ingested yet\<close> with status 400 and raises nothing; this is
  the case after any run of operations from the initial state in which no ingestion
  succeeded.
\<close>

theorem query_without_store:
  "(VECTOR_STORE s ''default_user'' = None
      \<longrightarrow> chat_query emb dist s query
            = (s, Inr (JSONResponse ''No documents ingested yet. Use /ingest first.'' 400)))
   \<and> (list_all (\<lambda>r. \<not> is_ingested r) (snd (run_ops fetch emb dist init_state ops))
      \<longrightarrow> snd (chat_query emb dist (fst (run_ops fetch emb dist init_state ops)) query)
            = Inr (JSONResponse ''No documents ingested yet. Use /ingest first.'' 400))"
proof (intro conjI impI)
  assume "VECTOR_STORE s ''default_user'' = None"
  then show "chat_query emb dist s query
            = (s, Inr (JSONResponse ''No documents ingested yet. Use /ingest first.'' 400))"
    by (simp add: chat_query_def Let_def)
next
  assume "list_all (\<lambda>r. \<not> is_ingested r) (snd (run_ops fetch emb dist init_state ops))"
  with run_ops_no_store[of init_state fetch emb dist ops]
  have "VECTOR_STORE (fst (run_ops fetch emb dist init_state ops)) ''default_user'' = None"
    by (simp add: init_state_def)
  then show "snd (chat_query emb dist (fst (run_ops fetch emb dist init_state ops)) query)
            = Inr (JSONResponse ''No documents ingested yet. Use /ingest first.'' 400)"
    by (simp add: chat_query_def Let_def)
qed

text \<open>
  Claim C9. A chat query is read-only: the state after the call (both dictionaries,
  and with them every stored index and chunk-text sequence) is the state before it,
  whether the call succeeds, returns an error value or raises.
\<close>

theorem chat_query_read_only:
  "fst (chat_query emb dist s query) = s"
  by (rule chat_query_state)

subsection \<open>The theorems on concrete runs\<close>

lemma extract_text_text_doc: "extract_text (text_doc t) = Inr t"
  by (simp add: extract_text_def text_doc_def dict_get_def py_iter_def py_in_def
      py_getitem_def)

lemma split_text_good: "split_text the_splitter ''good'' = Inr [''good'']"
  by (simp add: split_text_def merge_splits_def split_text_with_regex_def the_splitter_def
      Let_def append_split_def append_doc_def join_docs_def strip_def isspace_def)

lemma ingest_good: "ingest_docs fetch_by_name emb_len old_state [''good''] = (new_state, Inr (Ingested 1))"
  by (simp add: ingest_docs_def get_credentials_for_user_def old_state_def new_state_def Let_def
      fetch_by_name_def extract_text_text_doc split_text_good encode_def index_add_def)

lemma ingest_missing:
  "ingest_docs fetch_by_name emb_len old_state [''good'', ''missing''] = (old_state, Inl HttpError)"
  by (simp add: ingest_docs_def get_credentials_for_user_def old_state_def Let_def
      fetch_by_name_def extract_text_text_doc)

theorem ingest_atomic_witness:
  "get_credentials_for_user old_state ''default_user'' = Some creds0
   \<and> ''missing'' \<in> set [''good'', ''missing'']
   \<and> fetch_by_name creds0 ''missing'' = Inl HttpError
   \<and> ingest_docs fetch_by_name emb_len old_state [''good'', ''missing'']
        = (old_state, Inl HttpError)
   \<and> \<not> is_ingested (snd (ingest_docs fetch_by_name emb_len old_state [''good'', ''missing'']))
   \<and> fst (ingest_docs fetch_by_name emb_len old_state [''good'', ''missing'']) = old_state
   \<and> is_ingested (snd (ingest_docs fetch_by_name emb_len old_state [''good'']))
   \<and> fetch_by_name creds0 ''good'' = Inr (text_doc ''good'')"
proof -
  have c: "get_credentials_for_user old_state ''default_user'' = Some creds0"
    by (simp add: get_credentials_for_user_def old_state_def)
  have f: "fetch_by_name creds0 ''missing'' = Inl HttpError"
    by (simp add: fetch_by_name_def)
  have g: "fetch_by_name creds0 ''good'' = Inr (text_doc ''good'')"
    by (simp add: fetch_by_name_def)
  from ingest_atomic [of old_state creds0 "''missing''" "[''good'', ''missing'']" fetch_by_name
      HttpError emb_len] c f g
  show ?thesis by (simp add: ingest_missing ingest_good is_ingested_def)
qed

theorem vector_store_invariant_witness:
  "ingest_docs fetch_by_name emb_len old_state [''good''] = (new_state, Inr (Ingested 1))
   \<and> VECTOR_STORE new_state ''default_user''
        = Some \<lparr>index = [emb_len ''good''], texts = [''good'']\<rparr>
   \<and> length [''good''] = length [emb_len ''good'']
   \<and> [emb_len ''good''] ! 0 = emb_len ([''good''] ! 0)
   \<and> fst (step fetch_by_name emb_len l2sq_f32 (Query ''o'') new_state) = new_state
   \<and> fst (run_ops fetch_by_name emb_len l2sq_f32 init_state
         [Login (Inr creds0), Ingest [''good''], Query ''o'']) = new_state"
proof -
  have r: "fst (run_ops fetch_by_name emb_len l2sq_f32 init_state
         [Login (Inr creds0), Ingest [''good''], Query ''o'']) = new_state"
    by (simp add: oauth2callback_def init_state_def ingest_docs_def
        get_credentials_for_user_def new_state_def Let_def fetch_by_name_def
        extract_text_text_doc split_text_good encode_def index_add_def chat_query_state
        case_prod_beta)
  from vector_store_invariant [of fetch_by_name emb_len old_state "[''good'']" new_state 1
      l2sq_f32 "Query ''o''" "[Login (Inr creds0), Ingest [''good''], Query ''o'']"]
    ingest_good r
  show ?thesis by (simp add: new_state_def chat_query_state)
qed

theorem query_without_store_witness:
  "VECTOR_STORE (init_state :: int list state) ''default_user'' = None
   \<and> chat_query emb_len l2sq_f32 init_state ''q''
        = (init_state, Inr (JSONResponse ''No documents ingested yet. Use /ingest first.'' 400))
   \<and> list_all (\<lambda>r. \<not> is_ingested r)
        (snd (run_ops fetch_by_name emb_len l2sq_f32 init_state
           [Query ''a'', Login (Inr creds0), Ingest [''missing''], Ingest []]))
   \<and> snd (chat_query emb_len l2sq_f32
        (fst (run_ops fetch_by_name emb_len l2sq_f32 init_state
           [Query ''a'', Login (Inr creds0), Ingest [''missing''], Ingest []])) ''q'')
        = Inr (JSONResponse ''No documents ingested yet. Use /ingest first.'' 400)"
proof -
  have r: "snd (run_ops fetch_by_name emb_len l2sq_f32 init_state
           [Query ''a'', Login (Inr creds0), Ingest [''missing''], Ingest []])
       = [Inr (JSONResponse ''No documents ingested yet. Use /ingest first.'' 400),
          Inr Connected, Inl HttpError, Inl IndexError]"
    by (simp add: chat_query_def oauth2callback_def ingest_docs_def init_state_def Let_def
        get_credentials_for_user_def fetch_by_name_def encode_def)
  from query_without_store [of init_state emb_len l2sq_f32 "''q''" fetch_by_name
      "[Query ''a'', Login (Inr creds0), Ingest [''missing''], Ingest []]"] r
  show ?thesis by (simp add: is_ingested_def init_state_def)
qed

end
